theory Spec2Isabelle
  imports Main
begin

section \<open>Python strings\<close>

text \<open>
  Strings are \<open>char list\<close>s restricted to ASCII: the predicates below agree with Python's
  \<open>str\<close> methods on ASCII text, which is what the rendered counters, hrefs and handles
  of the feed consist of.
\<close>

definition is_digit :: "char \<Rightarrow> bool" where
  "is_digit c = (48 \<le> (of_char c :: nat) \<and> (of_char c :: nat) \<le> 57)"

definition is_space :: "char \<Rightarrow> bool" where
  \<comment> \<open>the ASCII characters \<open>str.strip()\<close> removes: TAB, LF, VT, FF, CR, FS, GS, RS, US, SPACE\<close>
  "is_space c = (let n = (of_char c :: nat) in (9 \<le> n \<and> n \<le> 13) \<or> (28 \<le> n \<and> n \<le> 32))"

definition upper_char :: "char \<Rightarrow> char" where
  "upper_char c = (let n = (of_char c :: nat) in if 97 \<le> n \<and> n \<le> 122 then char_of (n - 32) else c)"

definition lower_char :: "char \<Rightarrow> char" where
  "lower_char c = (let n = (of_char c :: nat) in if 65 \<le> n \<and> n \<le> 90 then char_of (n + 32) else c)"

definition upper :: "string \<Rightarrow> string" where
  "upper s = map upper_char s"

definition lower :: "string \<Rightarrow> string" where
  "lower s = map lower_char s"

definition strip :: "string \<Rightarrow> string" where
  "strip s = rev (dropWhile is_space (rev (dropWhile is_space s)))"

definition startswith :: "string \<Rightarrow> string \<Rightarrow> bool" where
  \<comment> \<open>\<open>s.startswith(p)\<close>\<close>
  "startswith s p = (take (length p) s = p)"

definition endswith :: "string \<Rightarrow> string \<Rightarrow> bool" where
  \<comment> \<open>\<open>s.endswith(p)\<close>\<close>
  "endswith s p = (length p \<le> length s \<and> drop (length s - length p) s = p)"

fun contains :: "string \<Rightarrow> string \<Rightarrow> bool" where
  \<comment> \<open>\<open>sub in s\<close>, written \<open>contains s sub\<close>\<close>
  "contains [] sub = (sub = [])"
| "contains (c # cs) sub = (startswith (c # cs) sub \<or> contains cs sub)"

definition remove_char :: "char \<Rightarrow> string \<Rightarrow> string" where
  \<comment> \<open>\<open>s.replace(c, "")\<close> for a one-character \<open>c\<close>\<close>
  "remove_char c s = filter (\<lambda>x. x \<noteq> c) s"

definition isdigit :: "string \<Rightarrow> bool" where
  \<comment> \<open>\<open>s.isdigit()\<close>: at least one character, all of them digits\<close>
  "isdigit s = (s \<noteq> [] \<and> list_all is_digit s)"

definition digit_val :: "char \<Rightarrow> int" where
  "digit_val c = int (of_char c) - 48"

definition int_of_digits :: "string \<Rightarrow> int" where
  \<comment> \<open>\<open>int(s)\<close> for a string of decimal digits\<close>
  "int_of_digits s = foldl (\<lambda>a c. 10 * a + digit_val c) 0 s"

definition py_int :: "string \<Rightarrow> int option" where
  \<comment> \<open>\<open>int(s)\<close> on an unsigned literal; \<open>None\<close> stands for the ValueError\<close>
  "py_int s = (if isdigit s then Some (int_of_digits s) else None)"

fun search_status :: "string \<Rightarrow> string option" where
  \<comment> \<open>\<open>re.search(r"/status/(\d+)", s)\<close>, group 1 of the leftmost match\<close>
  "search_status [] = None"
| "search_status (c # cs) =
     (if startswith (c # cs) ''/status/'' \<and> takeWhile is_digit (drop 8 (c # cs)) \<noteq> []
      then Some (takeWhile is_digit (drop 8 (c # cs)))
      else search_status cs)"

definition is_count_char :: "char \<Rightarrow> bool" where
  \<comment> \<open>the character class \<open>[\d,]\<close>\<close>
  "is_count_char c = (is_digit c \<or> c = CHR '','')"

definition first_count_run :: "string \<Rightarrow> string option" where
  \<comment> \<open>\<open>re.findall(r"[\d,]+", s)\<close>: its first element, \<open>None\<close> when the list is empty\<close>
  "first_count_run s =
     (let r = dropWhile (\<lambda>c. \<not> is_count_char c) s
      in if r = [] then None else Some (takeWhile is_count_char r))"

section \<open>Feed records\<close>

datatype timestamp_val = IsoString string | Datetime int

record tweet_data =
  id_str :: "string option"
  author_handle :: "string option"
  author_name :: "string option"
  content :: "string option"
  timestamp :: "timestamp_val option"
  likes :: "int option"
  retweets :: "int option"
  replies :: "int option"
  media_urls :: "string list option"
  is_retweet :: bool
  original_author :: "string option"
  is_reply :: bool
  reply_to_handle :: "string option"

definition initial_tweet_data :: tweet_data where
  \<comment> \<open>the dict literal at the head of \<open>_parse_tweet\<close>\<close>
  "initial_tweet_data =
     \<lparr> id_str = None, author_handle = None, author_name = None, content = None,
       timestamp = None, likes = None, retweets = None, replies = None,
       media_urls = Some [], is_retweet = False, original_author = None,
       is_reply = False, reply_to_handle = None \<rparr>"

section \<open>The rendered article\<close>

text \<open>
  An article is what the selectors of \<open>scraper.py\<close> return on it: every field is the
  result of one DOM query. Attributes that may be absent are \<open>option\<close>s.
\<close>

record link =
  href :: "string option"
  link_text :: string
  span_text :: "string option"

record button =
  aria_label :: "string option"
  span_span :: "string option"

record article =
  status_links :: "string option list"
  time_link :: "string option option"
  social_context :: "string option"
  user_links :: "link list"
  tweet_text :: "string option"
  article_text :: string
  user_name_cells :: nat
  time_datetime :: "string option option"
  button_of :: "string \<Rightarrow> button option"
  photo_srcs :: "string option list"

section \<open>Standard-library functions taken as parameters\<close>

text \<open>
  \<open>urllib.parse.urlparse\<close> and \<open>datetime.fromisoformat\<close> are library code. The
  model takes them as parameters: \<open>urlparse\<close> returns the scheme and the netloc of its
  argument, \<open>fromisoformat\<close> the instant; \<open>None\<close> stands for the exception either raises.
\<close>

record stdlib =
  urlparse :: "string \<Rightarrow> (string \<times> string) option"
  fromisoformat :: "string \<Rightarrow> int option"

definition validate_url :: "stdlib \<Rightarrow> string \<Rightarrow> bool" where
  "validate_url lib url =
     (case urlparse lib url of
        None \<Rightarrow> False
      | Some (scheme, netloc) \<Rightarrow> (scheme = ''http'' \<or> scheme = ''https'') \<and> netloc \<noteq> [])"

definition replace_char :: "char \<Rightarrow> string \<Rightarrow> string \<Rightarrow> string" where
  \<comment> \<open>\<open>s.replace(c, r)\<close> for a one-character \<open>c\<close>\<close>
  "replace_char c r s = concat (map (\<lambda>x. if x = c then r else [x]) s)"

definition parse_timestamp :: "stdlib \<Rightarrow> string option \<Rightarrow> int option" where
  "parse_timestamp lib timestamp_str =
     (case timestamp_str of
        None \<Rightarrow> None
      | Some s \<Rightarrow> if s = [] then None else fromisoformat lib (replace_char (CHR ''Z'') ''+00:00'' s))"

section \<open>DOM extraction engine (\<open>src/scraper.py\<close>)\<close>

subsection \<open>\<open>_extract_tweet_id\<close>\<close>

fun first_status_id :: "string option list \<Rightarrow> string option" where
  "first_status_id [] = None"
| "first_status_id (h # hs) =
     (case h of
        None \<Rightarrow> first_status_id hs
      | Some s \<Rightarrow>
          if s = [] then first_status_id hs
          else (case search_status s of
                  Some i \<Rightarrow> Some i
                | None \<Rightarrow> first_status_id hs))"

definition extract_tweet_id :: "article \<Rightarrow> string option" where
  "extract_tweet_id a =
     (case first_status_id (status_links a) of
        Some i \<Rightarrow> Some i
      | None \<Rightarrow>
          (case time_link a of
             None \<Rightarrow> None
           | Some None \<Rightarrow> None
           | Some (Some parent_link) \<Rightarrow>
               if parent_link = [] then None else search_status parent_link))"

subsection \<open>\<open>_extract_author_info\<close>\<close>

definition excluded_prefixes :: "string list" where
  "excluded_prefixes = [''search'', ''explore'', ''home'', ''notifications'', ''messages'', ''i/'']"

definition is_profile_href :: "string option \<Rightarrow> bool" where
  \<comment> \<open>\<open>href and href.startswith("/") and "/" not in href[1:]\<close>\<close>
  "is_profile_href h =
     (case h of
        None \<Rightarrow> False
      | Some s \<Rightarrow> s \<noteq> [] \<and> startswith s ''/'' \<and> \<not> contains (drop 1 s) ''/'')"

fun extract_author_info :: "link list \<Rightarrow> tweet_data \<Rightarrow> tweet_data" where
  \<comment> \<open>the \<open>for link in user_links\<close> loop; the \<open>break\<close> closes the body of
      \<open>if not handle.startswith(excluded_prefixes)\<close>, after the \<open>if\<close>/\<open>elif\<close>\<close>
  "extract_author_info [] td = td"
| "extract_author_info (l # ls) td =
     (if is_profile_href (href l) then
        (let handle = drop 1 (the (href l)) in
         if \<not> list_ex (startswith handle) excluded_prefixes then
           (if author_handle td = None then
              td\<lparr> author_handle := Some handle,
                  author_name := (case span_text l of None \<Rightarrow> author_name td | Some n \<Rightarrow> Some n) \<rparr>
            else if is_retweet td \<and> original_author td = None then
              td\<lparr> original_author := author_handle td, author_handle := Some handle \<rparr>
            else td)
         else extract_author_info ls td)
      else extract_author_info ls td)"

subsection \<open>\<open>_extract_reply_context\<close>\<close>

definition reply_indicators :: "string list" where
  "reply_indicators = [''replying to'', ''antwort an'', ''in reply to'', ''als antwort'']"

fun find_reply_link :: "link list \<Rightarrow> tweet_data \<Rightarrow> tweet_data" where
  "find_reply_link [] td = td"
| "find_reply_link (l # ls) td =
     (if startswith (link_text l) ''@'' \<and> is_profile_href (href l)
         \<and> Some (drop 1 (link_text l)) \<noteq> author_handle td
      then td\<lparr> is_reply := True, reply_to_handle := Some (drop 1 (link_text l)) \<rparr>
      else find_reply_link ls td)"

definition extract_reply_context :: "article \<Rightarrow> tweet_data \<Rightarrow> tweet_data" where
  "extract_reply_context a td =
     (let article_text = lower (article_text a);
          is_reply_by_text = list_ex (contains article_text) reply_indicators;
          td1 = (if is_reply_by_text then find_reply_link (user_links a) td else td)
      in if \<not> is_reply td1 \<and> user_name_cells a > 1 then td1\<lparr> is_reply := True \<rparr> else td1)"

subsection \<open>\<open>_extract_engagement\<close>\<close>

definition parse_compact_count :: "string \<Rightarrow> int option" where
  \<comment> \<open>the K/M fallback on the inner span's text (the body of \<open>if text:\<close>)\<close>
  "parse_compact_count text0 =
     (let text1 = upper (strip text0);
          (multiplier, text2) =
             (if endswith text1 ''K'' then (1000, butlast text1)
              else if endswith text1 ''M'' then (1000000, butlast text1)
              else (1, text1));
          cleaned = remove_char (CHR ''.'') (remove_char (CHR '','') text2)
      in if isdigit cleaned then Some (int_of_digits cleaned * multiplier) else None)"

definition extract_engagement :: "article \<Rightarrow> string \<Rightarrow> int option" where
  "extract_engagement a metric_type =
     (case button_of a metric_type of
        None \<Rightarrow> None
      | Some b \<Rightarrow>
          (case (case aria_label b of
                   None \<Rightarrow> None
                 | Some l \<Rightarrow> if l = [] then None else first_count_run l) of
             Some num \<Rightarrow> py_int (remove_char (CHR '','') num)
           | None \<Rightarrow>
               (case span_span b of
                  None \<Rightarrow> None
                | Some t \<Rightarrow> if t = [] then None else parse_compact_count t)))"

subsection \<open>\<open>_extract_media_urls\<close>\<close>

definition extract_media_urls :: "stdlib \<Rightarrow> article \<Rightarrow> string list" where
  "extract_media_urls lib a =
     List.map_filter
       (\<lambda>src. case src of
                 None \<Rightarrow> None
               | Some u \<Rightarrow> if u \<noteq> [] \<and> validate_url lib u then Some u else None)
       (photo_srcs a)"

subsection \<open>\<open>_parse_tweet\<close>\<close>

definition is_repost_text :: "string \<Rightarrow> bool" where
  "is_repost_text t = (contains (lower t) ''reposted'' \<or> contains (lower t) ''retweeted'')"

definition parse_tweet :: "stdlib \<Rightarrow> article \<Rightarrow> tweet_data option" where
  "parse_tweet lib a =
     (case extract_tweet_id a of
        None \<Rightarrow> None
      | Some i \<Rightarrow>
          if i = [] then None
          else
            (let td0 = initial_tweet_data\<lparr> id_str := Some i \<rparr>;
                 td1 = (case social_context a of
                          None \<Rightarrow> td0
                        | Some t \<Rightarrow> if is_repost_text t then td0\<lparr> is_retweet := True \<rparr> else td0);
                 td2 = extract_author_info (user_links a) td1;
                 td3 = (case tweet_text a of None \<Rightarrow> td2 | Some t \<Rightarrow> td2\<lparr> content := Some t \<rparr>);
                 td4 = extract_reply_context a td3;
                 td5 = (case time_datetime a of
                          None \<Rightarrow> td4
                        | Some attr \<Rightarrow>
                            td4\<lparr> timestamp := map_option Datetime (parse_timestamp lib attr) \<rparr>)
             in Some (td5\<lparr> likes := extract_engagement a ''like'',
                            retweets := extract_engagement a ''retweet'',
                            replies := extract_engagement a ''reply'',
                            media_urls := Some (extract_media_urls lib a) \<rparr>)))"

section \<open>Feed acquisition loop (\<open>XFeedScraper.scrape_feed\<close>)\<close>

definition MAX_CONSECUTIVE_KNOWN :: nat where
  "MAX_CONSECUTIVE_KNOWN = 3"

definition SCROLL_MULTIPLIER :: nat where
  "SCROLL_MULTIPLIER = 2"

text \<open>
  The browser page as the loop sees it: whether the navigation prologue (\<open>goto\<close>, the
  settle delays, the tab check) completes, what \<open>query_selector_all\<close> returns at each pass
  (\<open>None\<close> is the PlaywrightError the loop turns into an empty pass), and whether the
  scroll and its waits complete at each pass (an exception there ends the run with what
  has been collected).
\<close>

record page =
  goto_ok :: bool
  query_articles :: "nat \<Rightarrow> article list option"
  scroll_ok :: "nat \<Rightarrow> bool"

record scrape_state =
  tweets :: "tweet_data list"
  seen_ids :: "string set"
  consecutive_known :: nat

definition initial_scrape_state :: scrape_state where
  "initial_scrape_state = \<lparr> tweets = [], seen_ids = {}, consecutive_known = 0 \<rparr>"

definition is_known :: "(string \<Rightarrow> bool) option \<Rightarrow> string \<Rightarrow> bool" where
  \<comment> \<open>\<open>known_checker and known_checker(tweet["id"])\<close>\<close>
  "is_known known_checker i = (case known_checker of None \<Rightarrow> False | Some f \<Rightarrow> f i)"

definition fresh_id :: "stdlib \<Rightarrow> string set \<Rightarrow> article \<Rightarrow> (string \<times> tweet_data) option" where
  \<comment> \<open>\<open>tweet and tweet["id"] and tweet["id"] not in seen_ids\<close>: the id and the record\<close>
  "fresh_id lib seen a =
     (case parse_tweet lib a of
        None \<Rightarrow> None
      | Some tweet \<Rightarrow>
          (case id_str tweet of
             None \<Rightarrow> None
           | Some i \<Rightarrow> if i = [] \<or> i \<in> seen then None else Some (i, tweet)))"

fun process_articles ::
  "stdlib \<Rightarrow> nat \<Rightarrow> bool \<Rightarrow> (string \<Rightarrow> bool) option \<Rightarrow> article list \<Rightarrow> scrape_state
   \<Rightarrow> bool \<times> scrape_state" where
  \<comment> \<open>the \<open>for article in articles\<close> loop; the flag says that \<open>return tweets\<close> was taken\<close>
  "process_articles lib max_tweets stop_on_known known_checker [] st = (False, st)"
| "process_articles lib max_tweets stop_on_known known_checker (a # articles) st =
     (if length (tweets st) \<ge> max_tweets then (False, st)
      else
        (case fresh_id lib (seen_ids st) a of
           None \<Rightarrow> process_articles lib max_tweets stop_on_known known_checker articles st
         | Some (i, tweet) \<Rightarrow>
             (let st1 = st\<lparr> seen_ids := insert i (seen_ids st) \<rparr> in
              if stop_on_known \<and> is_known known_checker i then
                (let st2 = st1\<lparr> consecutive_known := consecutive_known st1 + 1 \<rparr> in
                 if consecutive_known st2 \<ge> MAX_CONSECUTIVE_KNOWN then (True, st2)
                 else process_articles lib max_tweets stop_on_known known_checker articles st2)
              else
                process_articles lib max_tweets stop_on_known known_checker articles
                  (st1\<lparr> consecutive_known := 0, tweets := tweets st1 @ [tweet] \<rparr>))))"

datatype stop_reason = KnownThreshold | Complete | Failed

definition articles_at :: "page \<Rightarrow> nat \<Rightarrow> article list" where
  "articles_at pg n = (case query_articles pg n of None \<Rightarrow> [] | Some articles \<Rightarrow> articles)"

function scroll_loop ::
  "stdlib \<Rightarrow> page \<Rightarrow> nat \<Rightarrow> bool \<Rightarrow> (string \<Rightarrow> bool) option \<Rightarrow> nat \<Rightarrow> nat \<Rightarrow> scrape_state
   \<Rightarrow> stop_reason \<times> nat \<times> scrape_state" where
  \<comment> \<open>the \<open>while\<close> loop; returns why it ended, how many scrolls were attempted, the state\<close>
  "scroll_loop lib pg max_tweets stop_on_known known_checker max_scrolls scroll_count st =
     (if length (tweets st) < max_tweets \<and> scroll_count < max_scrolls then
        (case process_articles lib max_tweets stop_on_known known_checker
                (articles_at pg scroll_count) st of
           (True, st1) \<Rightarrow> (KnownThreshold, scroll_count, st1)
         | (False, st1) \<Rightarrow>
             if scroll_ok pg scroll_count
             then scroll_loop lib pg max_tweets stop_on_known known_checker max_scrolls
                    (scroll_count + 1) st1
             else (Failed, scroll_count + 1, st1))
      else (Complete, scroll_count, st))"
  by pat_completeness auto
termination
  by (relation "measure (\<lambda>(lib, pg, max_tweets, sok, kc, max_scrolls, scroll_count, st).
                           max_scrolls - scroll_count)") auto

definition scrape_feed_run ::
  "stdlib \<Rightarrow> page \<Rightarrow> nat \<Rightarrow> bool \<Rightarrow> (string \<Rightarrow> bool) option
   \<Rightarrow> stop_reason \<times> nat \<times> scrape_state" where
  "scrape_feed_run lib pg max_tweets stop_on_known known_checker =
     (if goto_ok pg
      then scroll_loop lib pg max_tweets stop_on_known known_checker
             (max_tweets * SCROLL_MULTIPLIER) 0 initial_scrape_state
      else (Failed, 0, initial_scrape_state))"

definition scrape_feed ::
  "stdlib \<Rightarrow> page \<Rightarrow> nat \<Rightarrow> bool \<Rightarrow> (string \<Rightarrow> bool) option \<Rightarrow> tweet_data list" where
  "scrape_feed lib pg max_tweets stop_on_known known_checker =
     tweets (snd (snd (scrape_feed_run lib pg max_tweets stop_on_known known_checker)))"

subsection \<open>The feed as a sequence of first-time items\<close>

text \<open>
  Specification-side view of the articles the loop walks through: every article whose id
  is resolved and not yet seen in this run is an event, either known to the oracle or new.
  The acquisition loop is compared against this sequence below.
\<close>

datatype event = KnownItem string | NewItem tweet_data

fun fresh_events ::
  "stdlib \<Rightarrow> (string \<Rightarrow> bool) option \<Rightarrow> string set \<Rightarrow> article list \<Rightarrow> event list" where
  "fresh_events lib known_checker seen [] = []"
| "fresh_events lib known_checker seen (a # articles) =
     (case fresh_id lib seen a of
        None \<Rightarrow> fresh_events lib known_checker seen articles
      | Some (i, tweet) \<Rightarrow>
          (if is_known known_checker i then KnownItem i else NewItem tweet)
            # fresh_events lib known_checker (insert i seen) articles)"

fun is_known_item :: "event \<Rightarrow> bool" where
  "is_known_item (KnownItem i) = True"
| "is_known_item (NewItem tweet) = False"

fun new_items :: "event list \<Rightarrow> tweet_data list" where
  "new_items [] = []"
| "new_items (KnownItem i # es) = new_items es"
| "new_items (NewItem tweet # es) = tweet # new_items es"

definition trailing_known :: "event list \<Rightarrow> nat" where
  \<comment> \<open>length of the run of known items that ends the sequence\<close>
  "trailing_known es = length (takeWhile is_known_item (rev es))"

fun known_run3 :: "event list \<Rightarrow> bool" where
  \<comment> \<open>three known items in a row, with no new item between them\<close>
  "known_run3 (e1 # e2 # e3 # es) =
     ((is_known_item e1 \<and> is_known_item e2 \<and> is_known_item e3) \<or> known_run3 (e2 # e3 # es))"
| "known_run3 es = False"

definition shown :: "page \<Rightarrow> nat \<Rightarrow> article list" where
  \<comment> \<open>the articles of the passes before pass \<open>n\<close>, in the order the loop enumerates them\<close>
  "shown pg n = concat (map (articles_at pg) [0..<n])"

definition article_id :: "stdlib \<Rightarrow> article \<Rightarrow> string option" where
  "article_id lib a = (case parse_tweet lib a of None \<Rightarrow> None | Some tweet \<Rightarrow> id_str tweet)"

definition shown_ids :: "stdlib \<Rightarrow> page \<Rightarrow> nat \<Rightarrow> string set" where
  "shown_ids lib pg n = set (List.map_filter (article_id lib) (shown pg n))"

definition yields_new :: "stdlib \<Rightarrow> page \<Rightarrow> nat \<Rightarrow> bool" where
  \<comment> \<open>pass \<open>n\<close> shows at least one item with an id that no earlier pass has shown\<close>
  "yields_new lib pg n =
     list_ex (\<lambda>a. case fresh_id lib (shown_ids lib pg n) a of None \<Rightarrow> False | Some p \<Rightarrow> True)
       (articles_at pg n)"

definition shows_known :: "stdlib \<Rightarrow> (string \<Rightarrow> bool) option \<Rightarrow> page \<Rightarrow> nat \<Rightarrow> bool" where
  \<comment> \<open>pass \<open>n\<close> shows an item the oracle knows\<close>
  "shows_known lib known_checker pg n =
     list_ex (\<lambda>a. case article_id lib a of None \<Rightarrow> False | Some i \<Rightarrow> is_known known_checker i)
       (articles_at pg n)"

definition passes :: "page \<Rightarrow> nat \<Rightarrow> nat \<Rightarrow> article list" where
  \<comment> \<open>the articles of the passes \<open>n\<close> to \<open>m - 1\<close>\<close>
  "passes pg n m = concat (map (articles_at pg) [n..<m])"

definition known_article :: "stdlib \<Rightarrow> (string \<Rightarrow> bool) option \<Rightarrow> article \<Rightarrow> bool" where
  "known_article lib kc a = (case article_id lib a of None \<Rightarrow> False | Some i \<Rightarrow> is_known kc i)"

subsection \<open>Sample feeds\<close>

text \<open>Concrete inputs on which the statements below are exercised.\<close>

definition sample_lib :: stdlib where
  "sample_lib = \<lparr> urlparse = (\<lambda>u. None), fromisoformat = (\<lambda>s. None) \<rparr>"

definition plain_article :: "string \<Rightarrow> article" where
  \<comment> \<open>an item whose only content is its permalink \<open>/u/status/<digits>\<close>\<close>
  "plain_article digits =
     \<lparr> status_links = [Some (''/u/status/'' @ digits)], time_link = None, social_context = None,
       user_links = [], tweet_text = None, article_text = [], user_name_cells = 0,
       time_datetime = None, button_of = (\<lambda>m. None), photo_srcs = [] \<rparr>"

definition plain_tweet :: "string \<Rightarrow> tweet_data" where
  "plain_tweet digits = initial_tweet_data\<lparr> id_str := Some digits \<rparr>"

definition endless_page :: page where
  \<comment> \<open>pass \<open>n\<close> shows one item, with the id 7...7 of \<open>n + 1\<close> digits\<close>
  "endless_page =
     \<lparr> goto_ok = True,
       query_articles = (\<lambda>n. Some [plain_article (replicate (Suc n) (CHR ''7''))]),
       scroll_ok = (\<lambda>n. True) \<rparr>"

definition caught_up_page :: page where
  \<comment> \<open>one new item, three known ones in a row, then two new ones\<close>
  "caught_up_page =
     \<lparr> goto_ok = True,
       query_articles = (\<lambda>n. Some (map plain_article [''9'', ''1'', ''2'', ''3'', ''4'', ''5''])),
       scroll_ok = (\<lambda>n. True) \<rparr>"

definition stored_ids :: "string \<Rightarrow> bool" where
  "stored_ids i = (i = ''1'' \<or> i = ''2'' \<or> i = ''3'')"

section \<open>Multi-tenant store (\<open>web/models\<close>, \<open>web/services/pipeline_service.py\<close>)\<close>

text \<open>
  Instants are seconds since the epoch. A table is the list of its rows in insertion
  order. \<open>web_tweets\<close> carries the constraint \<open>uq_tweet_user\<close> on \<open>(tweet_id, user_id)\<close>:
  a commit that would leave two rows with the same pair raises \<open>IntegrityError\<close> and stores
  nothing.
\<close>

record web_tweet =
  tweet_id :: string
  user_id :: int
  columns :: tweet_data
  scraped_at :: int

record scrape_run =
  run_user_id :: int
  started_at :: int
  finished_at :: "int option"
  tweets_found :: nat
  tweets_new :: nat
  run_feed_source :: string
  status :: string

record briefing =
  briefing_user_id :: int
  briefing_content :: string
  tweet_count :: nat
  briefing_llm_provider :: string
  briefing_prompt_preset :: string
  created_at :: int

record user_settings =
  feed_source :: string
  settings_max_tweets :: nat
  summary_hours :: int
  prompt_preset :: string
  custom_prompt :: "string option"
  llm_provider :: string
  llm_model :: "string option"
  schedule_hour :: int
  timezone :: string

record database =
  web_tweets :: "web_tweet list"
  scrape_runs :: "scrape_run list"
  briefings :: "briefing list"
  settings_rows :: "(int \<times> user_settings) list"

datatype db_error = IntegrityError | DataError

definition tweet_key :: "web_tweet \<Rightarrow> string \<times> int" where
  "tweet_key r = (tweet_id r, user_id r)"

definition uq_tweet_user :: "web_tweet list \<Rightarrow> bool" where
  \<comment> \<open>\<open>UniqueConstraint("tweet_id", "user_id", name="uq_tweet_user")\<close>\<close>
  "uq_tweet_user rows = distinct (map tweet_key rows)"

definition truthy_id :: "tweet_data \<Rightarrow> string option" where
  \<comment> \<open>\<open>t.get("id")\<close> when it is truthy: neither \<open>None\<close> nor the empty string\<close>
  "truthy_id t = (case id_str t of None \<Rightarrow> None | Some i \<Rightarrow> if i = [] then None else Some i)"

definition stored_timestamp :: "stdlib \<Rightarrow> timestamp_val option \<Rightarrow> timestamp_val option" where
  \<comment> \<open>\<open>parse_timestamp(ts) if isinstance(ts, str) else ts\<close>\<close>
  "stored_timestamp lib ts =
     (case ts of
        Some (IsoString s) \<Rightarrow> map_option Datetime (parse_timestamp lib (Some s))
      | other \<Rightarrow> other)"

fun insert_loop ::
  "stdlib \<Rightarrow> (nat \<Rightarrow> int) \<Rightarrow> int \<Rightarrow> string set \<Rightarrow> nat \<Rightarrow> tweet_data list \<Rightarrow> web_tweet list"
  where
  \<comment> \<open>the insert loop; the counter is \<open>new_count\<close>, and \<open>now k\<close> is the clock reading the column
      default \<open>scraped_at = now_utc\<close> takes for the row added at count \<open>k\<close>\<close>
  "insert_loop lib now uid existing_ids new_count [] = []"
| "insert_loop lib now uid existing_ids new_count (tweet_data # raw_tweets) =
     (case truthy_id tweet_data of
        None \<Rightarrow> insert_loop lib now uid existing_ids new_count raw_tweets
      | Some i \<Rightarrow>
          if i \<in> existing_ids then insert_loop lib now uid existing_ids new_count raw_tweets
          else \<lparr> tweet_id = i, user_id = uid,
                 columns = tweet_data\<lparr> timestamp := stored_timestamp lib (timestamp tweet_data) \<rparr>,
                 scraped_at = now new_count \<rparr>
               # insert_loop lib now uid existing_ids (Suc new_count) raw_tweets)"

definition store_tweets_batch ::
  "stdlib \<Rightarrow> (nat \<Rightarrow> int) \<Rightarrow> database \<Rightarrow> int \<Rightarrow> tweet_data list
   \<Rightarrow> db_error + (nat \<times> database)" where
  \<comment> \<open>\<open>_store_tweets_batch\<close>; the column default reads the clock once for every row added\<close>
  "store_tweets_batch lib now db uid raw_tweets =
     (let tweet_ids = List.map_filter truthy_id raw_tweets in
      if tweet_ids = [] then Inr (0, db)
      else
        (let existing_ids =
               set (map tweet_id
                     (filter (\<lambda>r. tweet_id r \<in> set tweet_ids \<and> user_id r = uid) (web_tweets db)));
             added = insert_loop lib now uid existing_ids 0 raw_tweets;
             new_count = length added
         in if new_count = 0 then Inr (0, db)
            else if uq_tweet_user (web_tweets db @ added)
            then Inr (new_count, db\<lparr> web_tweets := web_tweets db @ added \<rparr>)
            else Inl IntegrityError))"

section \<open>Single-tenant retention (\<open>Database.cleanup_old_tweets\<close>, \<open>src/database.py\<close>)\<close>

record tweet_row =
  row_id :: string
  row_columns :: tweet_data
  row_scraped_at :: int

definition nth_row :: "'a list \<Rightarrow> nat \<Rightarrow> 'a option" where
  \<comment> \<open>\<open>.offset(n).limit(1).scalar()\<close>: \<open>None\<close> when the offset is past the last row\<close>
  "nth_row xs n = (if n < length xs then Some (xs ! n) else None)"

definition cleanup_old_tweets :: "nat \<Rightarrow> tweet_row list \<Rightarrow> nat \<times> tweet_row list" where
  \<comment> \<open>returns the deleted count and the rows left; \<open>keep_count - 1\<close> is a natural number, so
      that \<open>keep_count = 0\<close> reads the first row, as SQLite does with a negative OFFSET\<close>
  "cleanup_old_tweets keep_count rows =
     (let total = length rows in
      if total \<le> keep_count then (0, rows)
      else
        (case nth_row (rev (sort (map row_scraped_at rows))) (keep_count - 1) of
           None \<Rightarrow> (0, rows)
         | Some cutoff_tweet \<Rightarrow>
             (length (filter (\<lambda>r. row_scraped_at r < cutoff_tweet) rows),
              filter (\<lambda>r. \<not> row_scraped_at r < cutoff_tweet) rows)))"

subsection \<open>Sample stores\<close>

definition empty_database :: database where
  "empty_database = \<lparr> web_tweets = [], scrape_runs = [], briefings = [], settings_rows = [] \<rparr>"

definition no_permalink_article :: article where
  \<comment> \<open>an item with text and an author link but no permalink\<close>
  "no_permalink_article =
     \<lparr> status_links = [Some ''/alice/photo/1'', None], time_link = Some None,
       social_context = None,
       user_links = [\<lparr> href = Some ''/alice'', link_text = ''Alice'', span_text = Some ''Alice'' \<rparr>],
       tweet_text = Some ''hello'', article_text = ''Alice hello'', user_name_cells = 1,
       time_datetime = None, button_of = (\<lambda>m. None), photo_srcs = [] \<rparr>"

definition sample_rows :: "(nat \<Rightarrow> int) \<Rightarrow> nat \<Rightarrow> tweet_row list" where
  \<comment> \<open>\<open>count\<close> rows, the \<open>n\<close>-th stored at the instant \<open>stamp n\<close>\<close>
  "sample_rows stamp count =
     map (\<lambda>n. \<lparr> row_id = replicate (Suc n) (CHR ''1''), row_columns = initial_tweet_data,
                 row_scraped_at = stamp n \<rparr>) [0..<count]"


section \<open>Pipeline orchestrator (\<open>run_user_pipeline\<close>)\<close>

text \<open>
  What the run consumes from its collaborators: the feed provider's outcome per feed source,
  the summarizer's outcome on the tweets handed to it, the database's \<open>ORDER BY timestamp
  DESC\<close> (the place of NULLs depends on the backend), whether the backend enforces the length
  of a \<open>String(n)\<close> column (PostgreSQL, the configured default, does; SQLite does not), the
  text of a database exception, and the clock. Every read of the clock is an input of its
  own, named by the place that reads it. An exception is a constructor of the outcome.
\<close>

datatype fetch_result = Fetched "tweet_data list" | SessionExpiredError string | FetchFailed string

datatype summary_result = Summary string | SummaryGenerationError string | SummaryFailed string

datatype clock_site =
    StartedAt
  | RowDefault nat
  | RunFinished nat
  | SummaryCutoff
  | BriefingCreated

text \<open>
  \<open>RowDefault k\<close> is the read for the \<open>scraped_at\<close> of the \<open>k\<close>-th row added,
  \<open>RunFinished k\<close> the read for \<open>finished_at\<close> in the \<open>k\<close>-th call of \<open>_log_scrape_run\<close>
  of the run.
\<close>

record pipeline_env =
  disable_playwright :: bool
  varchar_enforced :: bool
  db_error_text :: "db_error \<Rightarrow> string"
  fetch_feed :: "string \<Rightarrow> int \<Rightarrow> nat \<Rightarrow> fetch_result"
  generate_summary :: "tweet_data list \<Rightarrow> user_settings \<Rightarrow> summary_result"
  order_by_timestamp_desc :: "web_tweet list \<Rightarrow> web_tweet list"
  now_utc :: "clock_site \<Rightarrow> int"

definition status_fits :: "pipeline_env \<Rightarrow> string \<Rightarrow> bool" where
  \<comment> \<open>\<open>status: Mapped[str] = mapped_column(String(128))\<close>\<close>
  "status_fits env run_status = (length run_status \<le> 128 \<or> \<not> varchar_enforced env)"

definition log_scrape_run ::
  "pipeline_env \<Rightarrow> nat \<Rightarrow> database \<Rightarrow> int \<Rightarrow> int \<Rightarrow> nat \<Rightarrow> nat \<Rightarrow> string \<Rightarrow> string
   \<Rightarrow> db_error + database" where
  \<comment> \<open>\<open>_log_scrape_run\<close>, as the \<open>k\<close>-th such call of the run; the status is stored as it is
      given, and the commit raises when it does not fit the column. \<open>feed_source\<close> comes from
      a column of the same width as the one it goes to.\<close>
  "log_scrape_run env k db uid started found new source run_status =
     (if status_fits env run_status
      then Inr (db\<lparr> scrape_runs := scrape_runs db @
                     [\<lparr> run_user_id = uid, started_at = started,
                        finished_at = Some (now_utc env (RunFinished k)),
                        tweets_found = found, tweets_new = new, run_feed_source = source,
                        status = run_status \<rparr>] \<rparr>)
      else Inl DataError)"

definition pipeline_failed ::
  "pipeline_env \<Rightarrow> nat \<Rightarrow> database \<Rightarrow> int \<Rightarrow> int \<Rightarrow> string \<Rightarrow> string
   \<Rightarrow> briefing option \<times> database" where
  \<comment> \<open>the handler \<open>except Exception as e\<close>: roll back to \<open>db\<close>, the last committed state, try
      to record \<open>error: <e>\<close>, swallow a failure of that, return \<open>None\<close>\<close>
  "pipeline_failed env k db uid started source e =
     (case log_scrape_run env k db uid started 0 0 source (''error: '' @ e) of
        Inl err \<Rightarrow> (None, db)
      | Inr db' \<Rightarrow> (None, db'))"

definition fetch_tweets ::
  "pipeline_env \<Rightarrow> database \<Rightarrow> int \<Rightarrow> user_settings \<Rightarrow> int
   \<Rightarrow> (briefing option \<times> database) + tweet_data list" where
  \<comment> \<open>Step 1; \<open>Inl\<close> is a run that ends here, with what it returns and the database it leaves\<close>
  "fetch_tweets env db uid settings started =
     (let source = feed_source settings in
      if source = ''api'' then
        (case fetch_feed env ''api'' uid (settings_max_tweets settings) of
           Fetched raw_tweets \<Rightarrow> Inr raw_tweets
         | SessionExpiredError e \<Rightarrow> Inl (pipeline_failed env 0 db uid started source e)
         | FetchFailed e \<Rightarrow> Inl (pipeline_failed env 0 db uid started source e))
      else if source = ''scraper'' then
        (if disable_playwright env then
           (case log_scrape_run env 0 db uid started 0 0 source ''error: playwright_disabled'' of
              Inr db' \<Rightarrow> Inl (None, db')
            | Inl err \<Rightarrow>
                Inl (pipeline_failed env 1 db uid started source (db_error_text env err)))
         else
           (case fetch_feed env ''scraper'' uid (settings_max_tweets settings) of
              Fetched raw_tweets \<Rightarrow> Inr raw_tweets
            | SessionExpiredError e \<Rightarrow>
                (case log_scrape_run env 0 db uid started 0 0 source (''error: '' @ e) of
                   Inr db' \<Rightarrow> Inl (pipeline_failed env 1 db' uid started source e)
                 | Inl err \<Rightarrow>
                     Inl (pipeline_failed env 1 db uid started source (db_error_text env err)))
            | FetchFailed e \<Rightarrow> Inl (pipeline_failed env 0 db uid started source e)))
      else Inr [])"

definition tweet_dict :: "web_tweet \<Rightarrow> tweet_data" where
  \<comment> \<open>a stored row as the dict handed to the summarizer\<close>
  "tweet_dict t = (columns t)\<lparr> id_str := Some (tweet_id t) \<rparr>"

definition recent_tweets ::
  "pipeline_env \<Rightarrow> database \<Rightarrow> int \<Rightarrow> user_settings \<Rightarrow> web_tweet list" where
  \<comment> \<open>Step 3: the tenant's rows stored since \<open>now - summary_hours\<close>\<close>
  "recent_tweets env db uid settings =
     (let cutoff = now_utc env SummaryCutoff - summary_hours settings * 3600
      in order_by_timestamp_desc env
           (filter (\<lambda>t. user_id t = uid \<and> scraped_at t \<ge> cutoff) (web_tweets db)))"

definition summarize_and_store ::
  "pipeline_env \<Rightarrow> database \<Rightarrow> int \<Rightarrow> user_settings \<Rightarrow> int \<Rightarrow> nat \<Rightarrow> nat
   \<Rightarrow> briefing option \<times> database" where
  \<comment> \<open>Steps 3 to 5, after the \<open>completed\<close> run record has been written\<close>
  "summarize_and_store env db uid settings started found new_count =
     (let recent = recent_tweets env db uid settings in
      if recent = [] then (None, db)
      else
        (let tweet_dicts = map tweet_dict recent in
         case generate_summary env tweet_dicts settings of
           SummaryGenerationError e \<Rightarrow>
             (case log_scrape_run env 1 db uid started found new_count (feed_source settings)
                     (''summary_error: '' @ e) of
                Inr db' \<Rightarrow> (None, db')
              | Inl err \<Rightarrow>
                  pipeline_failed env 2 db uid started (feed_source settings)
                    (db_error_text env err))
         | SummaryFailed e \<Rightarrow> pipeline_failed env 1 db uid started (feed_source settings) e
         | Summary summary \<Rightarrow>
             (let b = \<lparr> briefing_user_id = uid, briefing_content = summary,
                        tweet_count = length tweet_dicts,
                        briefing_llm_provider = llm_provider settings,
                        briefing_prompt_preset = prompt_preset settings,
                        created_at = now_utc env BriefingCreated \<rparr>
              in (Some b, db\<lparr> briefings := briefings db @ [b] \<rparr>))))"

definition run_user_pipeline ::
  "pipeline_env \<Rightarrow> stdlib \<Rightarrow> database \<Rightarrow> int \<Rightarrow> briefing option \<times> database" where
  "run_user_pipeline env lib db uid =
     (case map_of (settings_rows db) uid of
        None \<Rightarrow> (None, db)
      | Some settings \<Rightarrow>
          (let started = now_utc env StartedAt; source = feed_source settings in
           case fetch_tweets env db uid settings started of
             Inl ended \<Rightarrow> ended
           | Inr raw_tweets \<Rightarrow>
               if raw_tweets = [] then
                 (case log_scrape_run env 0 db uid started 0 0 source ''no_tweets'' of
                    Inr db' \<Rightarrow> (None, db')
                  | Inl err \<Rightarrow>
                      pipeline_failed env 1 db uid started source (db_error_text env err))
               else
                 (case store_tweets_batch lib (\<lambda>k. now_utc env (RowDefault k)) db uid
                         raw_tweets of
                    Inl e \<Rightarrow> pipeline_failed env 0 db uid started source (db_error_text env e)
                  | Inr (new_count, stored) \<Rightarrow>
                      (case log_scrape_run env 0 stored uid started (length raw_tweets)
                              new_count source ''completed'' of
                         Inl err \<Rightarrow>
                           pipeline_failed env 1 stored uid started source
                             (db_error_text env err)
                       | Inr logged \<Rightarrow>
                           summarize_and_store env logged uid settings started
                             (length raw_tweets) new_count))))"

definition reaches_summarizer ::
  "pipeline_env \<Rightarrow> stdlib \<Rightarrow> database \<Rightarrow> int \<Rightarrow> user_settings \<Rightarrow> tweet_data list \<Rightarrow> nat
   \<Rightarrow> database \<Rightarrow> bool" where
  \<comment> \<open>the run of \<open>uid\<close> on \<open>db\<close> gets as far as calling the summarizer: settings found, the
      non-empty batch \<open>raw_tweets\<close> fetched and stored with \<open>new_count\<close> new rows, the
      \<open>completed\<close> record written, which leaves \<open>logged\<close>, and recent tweets present\<close>
  "reaches_summarizer env lib db uid settings raw_tweets new_count logged =
     (map_of (settings_rows db) uid = Some settings
      \<and> fetch_tweets env db uid settings (now_utc env StartedAt) = Inr raw_tweets
      \<and> raw_tweets \<noteq> []
      \<and> (case store_tweets_batch lib (\<lambda>k. now_utc env (RowDefault k)) db uid raw_tweets of
            Inl e \<Rightarrow> False
          | Inr (n, stored) \<Rightarrow>
              n = new_count
              \<and> log_scrape_run env 0 stored uid (now_utc env StartedAt) (length raw_tweets)
                    new_count (feed_source settings) ''completed'' = Inr logged)
      \<and> recent_tweets env logged uid settings \<noteq> [])"

definition sample_settings :: user_settings where
  "sample_settings =
     \<lparr> feed_source = ''api'', settings_max_tweets = 100, summary_hours = 24,
       prompt_preset = ''default'', custom_prompt = None, llm_provider = ''openai'',
       llm_model = None, schedule_hour = 8, timezone = ''UTC'' \<rparr>"

definition sample_clock :: "clock_site \<Rightarrow> int" where
  "sample_clock site =
     (case site of
        StartedAt \<Rightarrow> 1000
      | RowDefault k \<Rightarrow> 1001 + int k
      | RunFinished k \<Rightarrow> 1100 + int k
      | SummaryCutoff \<Rightarrow> 1150
      | BriefingCreated \<Rightarrow> 1200)"

definition failing_summarizer_env :: pipeline_env where
  \<comment> \<open>PostgreSQL; the API returns two tweets; the LLM endpoint answers HTTP 500\<close>
  "failing_summarizer_env =
     \<lparr> disable_playwright = False, varchar_enforced = True,
       db_error_text = (\<lambda>e. ''database error''),
       fetch_feed = (\<lambda>source uid n. Fetched [plain_tweet ''7'', plain_tweet ''8'']),
       generate_summary = (\<lambda>tweet_dicts settings. SummaryGenerationError ''LLM error: HTTP 500''),
       order_by_timestamp_desc = (\<lambda>rows. rows),
       now_utc = sample_clock \<rparr>"

definition crashing_summarizer_env :: pipeline_env where
  \<comment> \<open>the same, with a summarizer that raises another exception\<close>
  "crashing_summarizer_env =
     failing_summarizer_env
       \<lparr> generate_summary := (\<lambda>tweet_dicts settings. SummaryFailed ''KeyError: tweets_json'') \<rparr>"

definition one_user_database :: database where
  "one_user_database = empty_database\<lparr> settings_rows := [(1, sample_settings)] \<rparr>"

definition logged_database :: database where
  \<comment> \<open>\<open>one_user_database\<close> once the run under \<open>sample_clock\<close> has stored its two tweets and
      written its \<open>completed\<close> record\<close>
  "logged_database =
     one_user_database
       \<lparr> web_tweets :=
           [\<lparr> tweet_id = ''7'', user_id = 1, columns = plain_tweet ''7'', scraped_at = 1001 \<rparr>,
            \<lparr> tweet_id = ''8'', user_id = 1, columns = plain_tweet ''8'', scraped_at = 1002 \<rparr>],
         scrape_runs :=
           [\<lparr> run_user_id = 1, started_at = 1000, finished_at = Some 1100, tweets_found = 2,
              tweets_new = 2, run_feed_source = ''api'', status = ''completed'' \<rparr>] \<rparr>"

definition long_reason :: string where
  \<comment> \<open>a reason of 149 characters, as \<open>Error generating summary: {e}\<close> gives for a transport
      error\<close>
  "long_reason =
     ''Error generating summary: Server disconnected without sending a response while ''
     @ ''requesting https://api.openai.com/v1/chat/completions after 3 attempts''"

definition long_reason_env :: pipeline_env where
  \<comment> \<open>PostgreSQL again; the summarizer fails with \<open>long_reason\<close>, and a failed insert is
      reported with its statement\<close>
  "long_reason_env =
     failing_summarizer_env
       \<lparr> db_error_text :=
           (\<lambda>e. ''StringDataRightTruncationError: value too long for type character varying ''
                 @ ''[SQL: INSERT INTO web_scrape_runs user_id, started_at, finished_at, ''
                 @ ''tweets_found, tweets_new, feed_source, status]''),
         generate_summary := (\<lambda>tweet_dicts settings. SummaryGenerationError long_reason) \<rparr>"

section \<open>Live-API feed provider (\<open>TwitterAPIProvider._transform_tweet\<close>)\<close>

record api_user =
  username :: "string option"
  display_name :: "string option"

record api_metrics =
  like_count :: "int option"
  retweet_count :: "int option"
  reply_count :: "int option"

record api_ref =
  ref_type :: string
  ref_id :: string

record api_tweet =
  api_id :: string
  author_id :: "string option"
  api_text :: "string option"
  api_created_at :: "string option"
  public_metrics :: "api_metrics option"
  referenced_tweets :: "api_ref list"
  entity_urls :: "string option list"

definition author_of ::
  "(string \<Rightarrow> api_user option) \<Rightarrow> string option \<Rightarrow> api_user option" where
  \<comment> \<open>\<open>users_map.get(author_id, {})\<close>: \<open>None\<close> is the empty dict\<close>
  "author_of users_map aid = (case aid of None \<Rightarrow> None | Some i \<Rightarrow> users_map i)"

definition ref_username ::
  "(string \<Rightarrow> api_user option) \<Rightarrow> (string \<Rightarrow> api_tweet option) \<Rightarrow> api_ref \<Rightarrow> string option" where
  "ref_username users_map ref_tweets_map ref =
     (case author_of users_map
             (case ref_tweets_map (ref_id ref) of None \<Rightarrow> None | Some rt \<Rightarrow> author_id rt) of
        None \<Rightarrow> None
      | Some u \<Rightarrow> username u)"

fun referenced_loop ::
  "(string \<Rightarrow> api_user option) \<Rightarrow> (string \<Rightarrow> api_tweet option) \<Rightarrow> api_ref list
   \<Rightarrow> bool \<times> bool \<times> string option \<times> string option
   \<Rightarrow> bool \<times> bool \<times> string option \<times> string option" where
  \<comment> \<open>the state is \<open>(is_retweet, is_reply, original_author, reply_to_handle)\<close>\<close>
  "referenced_loop users_map ref_tweets_map [] acc = acc"
| "referenced_loop users_map ref_tweets_map (ref # refs) (rt, rp, orig, reply_to) =
     (if ref_type ref = ''retweeted'' then
        referenced_loop users_map ref_tweets_map refs
          (True, rp, ref_username users_map ref_tweets_map ref, reply_to)
      else if ref_type ref = ''replied_to'' then
        referenced_loop users_map ref_tweets_map refs
          (rt, True, orig, ref_username users_map ref_tweets_map ref)
      else referenced_loop users_map ref_tweets_map refs (rt, rp, orig, reply_to))"

definition media_markers :: "string list" where
  "media_markers = [''.jpg'', ''.png'', ''.gif'', ''pbs.twimg.com'']"

definition api_media_urls :: "api_tweet \<Rightarrow> string list" where
  \<comment> \<open>the list built from \<open>entities.urls\<close>; a missing \<open>expanded_url\<close> reads as the empty string\<close>
  "api_media_urls tweet =
     filter (\<lambda>expanded. list_ex (contains expanded) media_markers)
       (map (\<lambda>e. case e of None \<Rightarrow> [] | Some u \<Rightarrow> u) (entity_urls tweet))"

definition transform_tweet ::
  "(string \<Rightarrow> api_user option) \<Rightarrow> (string \<Rightarrow> api_tweet option) \<Rightarrow> api_tweet \<Rightarrow> tweet_data" where
  "transform_tweet users_map ref_tweets_map tweet =
     (let author = author_of users_map (author_id tweet);
          metrics = public_metrics tweet;
          (rt, rp, orig, reply_to) =
             referenced_loop users_map ref_tweets_map (referenced_tweets tweet)
               (False, False, None, None);
          urls = api_media_urls tweet
      in \<lparr> id_str = Some (api_id tweet),
           author_handle = (case author of None \<Rightarrow> None | Some u \<Rightarrow> username u),
           author_name = (case author of None \<Rightarrow> None | Some u \<Rightarrow> display_name u),
           content = api_text tweet,
           timestamp = map_option IsoString (api_created_at tweet),
           likes = (case metrics of None \<Rightarrow> None | Some m \<Rightarrow> like_count m),
           retweets = (case metrics of None \<Rightarrow> None | Some m \<Rightarrow> retweet_count m),
           replies = (case metrics of None \<Rightarrow> None | Some m \<Rightarrow> reply_count m),
           media_urls = (if urls = [] then None else Some urls),
           is_retweet = rt, original_author = orig, is_reply = rp,
           reply_to_handle = reply_to \<rparr>)"

definition text_only_api_tweet :: api_tweet where
  "text_only_api_tweet =
     \<lparr> api_id = ''7'', author_id = Some ''u1'', api_text = Some ''hello'',
       api_created_at = Some ''2025-01-01T00:00:00Z'', public_metrics = None,
       referenced_tweets = [], entity_urls = [] \<rparr>"

definition photo_api_tweet :: api_tweet where
  "photo_api_tweet = text_only_api_tweet\<lparr> entity_urls := [Some ''not a url.jpg'', None] \<rparr>"

section \<open>Hourly scheduler (\<open>web/scheduler_tasks.py\<close>)\<close>

definition DUPLICATE_BRIEFING_HOURS :: int where
  "DUPLICATE_BRIEFING_HOURS = 20"

record due_row =
  row_user :: int
  row_is_active :: bool
  row_settings :: user_settings
  row_subscription_status :: string

text \<open>
  \<open>utcoffset env tz t\<close> is the offset in seconds of the zone \<open>tz\<close> at the instant \<open>t\<close>, \<open>None\<close>
  when the zone cannot be loaded; \<open>clock env k\<close> is the \<open>k\<close>-th reading of the clock;
  \<open>redis env\<close> says whether the job queue is there.
\<close>

record scheduler_env =
  utcoffset :: "string \<Rightarrow> int \<Rightarrow> int option"
  clock :: "nat \<Rightarrow> int"
  redis :: bool

definition utc_hour_for_user :: "scheduler_env \<Rightarrow> int \<Rightarrow> string \<Rightarrow> int \<Rightarrow> int" where
  \<comment> \<open>\<open>int((schedule_hour - offset / 3600) % 24)\<close>, computed on seconds; the fallback of the
      \<open>except\<close> clause is \<open>schedule_hour\<close> itself\<close>
  "utc_hour_for_user env hour tz now =
     (case utcoffset env tz now of
        None \<Rightarrow> hour
      | Some offset \<Rightarrow> ((hour * 3600 - offset) mod 86400) div 3600)"

definition has_recent_briefing :: "briefing list \<Rightarrow> int \<Rightarrow> int \<Rightarrow> bool" where
  \<comment> \<open>the query \<open>Briefing.user_id == user.id, Briefing.created_at >= cutoff\<close> finds a row\<close>
  "has_recent_briefing bs uid cutoff =
     list_ex (\<lambda>b. briefing_user_id b = uid \<and> created_at b \<ge> cutoff) bs"

fun enqueue_loop ::
  "scheduler_env \<Rightarrow> int \<Rightarrow> briefing list \<Rightarrow> nat \<Rightarrow> due_row list \<Rightarrow> int list" where
  \<comment> \<open>the \<open>for\<close> loop; the result lists the users enqueued, the counter numbers the clock
      readings\<close>
  "enqueue_loop env current_utc_hour bs k [] = []"
| "enqueue_loop env current_utc_hour bs k (r # rows) =
     (let user_utc_hour =
            utc_hour_for_user env (schedule_hour (row_settings r)) (timezone (row_settings r))
              (clock env k)
      in if user_utc_hour \<noteq> current_utc_hour
         then enqueue_loop env current_utc_hour bs (k + 1) rows
         else
           (let cutoff = clock env (k + 1) - DUPLICATE_BRIEFING_HOURS * 3600 in
            if has_recent_briefing bs (row_user r) cutoff
            then enqueue_loop env current_utc_hour bs (k + 2) rows
            else if redis env
            then row_user r # enqueue_loop env current_utc_hour bs (k + 2) rows
            else enqueue_loop env current_utc_hour bs (k + 2) rows))"

definition is_subscribed :: "due_row \<Rightarrow> bool" where
  \<comment> \<open>the \<open>WHERE\<close> clause of the query\<close>
  "is_subscribed r =
     (row_is_active r
      \<and> (row_subscription_status r = ''active'' \<or> row_subscription_status r = ''trialing''))"

definition enqueue_due_users :: "scheduler_env \<Rightarrow> due_row list \<Rightarrow> briefing list \<Rightarrow> int list" where
  "enqueue_due_users env rows bs =
     (let current_utc_hour = (clock env 0 div 3600) mod 24
      in enqueue_loop env current_utc_hour bs 1 (filter is_subscribed rows))"

definition eight_oclock_env :: scheduler_env where
  \<comment> \<open>every reading is 08:00:00 UTC of day 0; every zone is UTC\<close>
  "eight_oclock_env = \<lparr> utcoffset = (\<lambda>tz t. Some 0), clock = (\<lambda>k. 8 * 3600), redis = True \<rparr>"

definition due_user :: "int \<Rightarrow> due_row" where
  "due_user uid =
     \<lparr> row_user = uid, row_is_active = True, row_settings = sample_settings,
       row_subscription_status = ''active'' \<rparr>"

definition briefing_at :: "int \<Rightarrow> int \<Rightarrow> briefing" where
  "briefing_at uid t =
     \<lparr> briefing_user_id = uid, briefing_content = ''digest'', tweet_count = 1,
       briefing_llm_provider = ''openai'', briefing_prompt_preset = ''default'', created_at = t \<rparr>"

definition https_lib :: stdlib where
  \<comment> \<open>a \<open>urlparse\<close> that understands \<open>https://host/path\<close> and nothing else\<close>
  "https_lib =
     \<lparr> urlparse = (\<lambda>u. if startswith u ''https://''
                         then Some (''https'', takeWhile (\<lambda>c. c \<noteq> CHR ''/'') (drop 8 u))
                         else None),
       fromisoformat = (\<lambda>s. None) \<rparr>"

definition photo_article :: article where
  "photo_article =
     (plain_article ''7'')
       \<lparr> photo_srcs := [Some ''https://pbs.twimg.com/media/a.jpg'',
                        Some ''data:image/png;base64,AAAA'', None] \<rparr>"

section \<open>Verified properties\<close>

subsection \<open>Engagement counts\<close>

lemma parse_compact_count_plain_and_million:
  "parse_compact_count ''3M'' = Some 3000000 \<and> parse_compact_count ''42'' = Some 42"
  by code_simp

lemma parse_compact_count_unparseable:
  "parse_compact_count ''abc'' = None \<and> parse_compact_count ''K'' = None
   \<and> parse_compact_count ''.'' = None \<and> parse_compact_count ''1.2B'' = None"
  by code_simp

text \<open>
  C1. The K/M fallback parser should map "1.2K" to 1200. The code deletes every "." together
  with every "," before it multiplies, so the fraction digit is read as a unit digit:
  "1.2K" yields 12 * 1000 = 12000.
\<close>

theorem parse_compact_count_decimal_suffix:
  "parse_compact_count ''1.2K'' = Some 12000"
  by code_simp

subsection \<open>Author resolution\<close>

lemma extract_author_info_original_author:
  "author_handle td = None \<Longrightarrow> original_author (extract_author_info ls td) = original_author td"
  by (induction ls) (simp_all add: Let_def)

text \<open>
  C7. On a repost with two distinct profile links the first handle should move to
  \<open>original_author\<close> and the second become \<open>author_handle\<close>. The loop leaves at the first
  non-navigational profile link, so the second link is never read: on the links
  \<open>/alice\<close>, \<open>/bob\<close> of a repost the author stays \<open>alice\<close> and \<open>original_author\<close> stays empty.
\<close>

theorem extract_author_info_repost_two_links:
  "extract_author_info
     [\<lparr> href = Some ''/alice'', link_text = ''Alice'', span_text = Some ''Alice'' \<rparr>,
      \<lparr> href = Some ''/bob'', link_text = ''Bob'', span_text = Some ''Bob'' \<rparr>]
     (initial_tweet_data\<lparr> id_str := Some ''1'', is_retweet := True \<rparr>)
   = initial_tweet_data\<lparr> id_str := Some ''1'', is_retweet := True,
       author_handle := Some ''alice'', author_name := Some ''Alice'' \<rparr>"
  by code_simp

subsection \<open>The acquisition loop, step by step\<close>

declare scroll_loop.simps [simp del]

lemma process_articles_break:
  "max_tweets \<le> length (tweets st) \<Longrightarrow>
   process_articles lib max_tweets sok kc (a # articles) st = (False, st)"
  by simp

lemma process_articles_skip:
  "length (tweets st) < max_tweets \<Longrightarrow> fresh_id lib (seen_ids st) a = None \<Longrightarrow>
   process_articles lib max_tweets sok kc (a # articles) st
     = process_articles lib max_tweets sok kc articles st"
  by simp

lemma process_articles_known_stop:
  "length (tweets st) < max_tweets \<Longrightarrow> fresh_id lib (seen_ids st) a = Some (i, tweet) \<Longrightarrow>
   sok \<Longrightarrow> is_known kc i \<Longrightarrow> MAX_CONSECUTIVE_KNOWN \<le> Suc (consecutive_known st) \<Longrightarrow>
   process_articles lib max_tweets sok kc (a # articles) st
     = (True, st\<lparr> seen_ids := insert i (seen_ids st),
                  consecutive_known := Suc (consecutive_known st) \<rparr>)"
  by (simp add: Let_def)

lemma process_articles_known_cont:
  "length (tweets st) < max_tweets \<Longrightarrow> fresh_id lib (seen_ids st) a = Some (i, tweet) \<Longrightarrow>
   sok \<Longrightarrow> is_known kc i \<Longrightarrow> Suc (consecutive_known st) < MAX_CONSECUTIVE_KNOWN \<Longrightarrow>
   process_articles lib max_tweets sok kc (a # articles) st
     = process_articles lib max_tweets sok kc articles
         (st\<lparr> seen_ids := insert i (seen_ids st),
              consecutive_known := Suc (consecutive_known st) \<rparr>)"
  by (simp add: Let_def)

lemma process_articles_new:
  "length (tweets st) < max_tweets \<Longrightarrow> fresh_id lib (seen_ids st) a = Some (i, tweet) \<Longrightarrow>
   \<not> (sok \<and> is_known kc i) \<Longrightarrow>
   process_articles lib max_tweets sok kc (a # articles) st
     = process_articles lib max_tweets sok kc articles
         (st\<lparr> seen_ids := insert i (seen_ids st), consecutive_known := 0,
              tweets := tweets st @ [tweet] \<rparr>)"
  by (auto simp add: Let_def)

declare process_articles.simps(2) [simp del]

lemma article_cases [case_names break skip known_stop known_cont new]:
  obtains
    "max_tweets \<le> length (tweets st)"
  | "length (tweets st) < max_tweets" "fresh_id lib (seen_ids st) a = None"
  | i tweet where "length (tweets st) < max_tweets" "fresh_id lib (seen_ids st) a = Some (i, tweet)"
      "sok" "is_known kc i" "MAX_CONSECUTIVE_KNOWN \<le> Suc (consecutive_known st)"
  | i tweet where "length (tweets st) < max_tweets" "fresh_id lib (seen_ids st) a = Some (i, tweet)"
      "sok" "is_known kc i" "Suc (consecutive_known st) < MAX_CONSECUTIVE_KNOWN"
  | i tweet where "length (tweets st) < max_tweets" "fresh_id lib (seen_ids st) a = Some (i, tweet)"
      "\<not> (sok \<and> is_known kc i)"
proof (cases "max_tweets \<le> length (tweets st)")
  case True
  then show ?thesis using that(1) by blast
next
  case False
  then have lt: "length (tweets st) < max_tweets" by simp
  show ?thesis
  proof (cases "fresh_id lib (seen_ids st) a")
    case None
    with lt show ?thesis using that(2) by blast
  next
    case (Some p)
    obtain i tweet where "p = (i, tweet)" by (cases p)
    with Some have f: "fresh_id lib (seen_ids st) a = Some (i, tweet)" by simp
    show ?thesis
    proof (cases "sok \<and> is_known kc i")
      case True
      then show ?thesis
        using that(3) [OF lt f] that(4) [OF lt f] by (cases "MAX_CONSECUTIVE_KNOWN \<le> Suc (consecutive_known st)") auto
    next
      case False
      then show ?thesis using that(5) [OF lt f] by blast
    qed
  qed
qed

lemma scroll_loop_exit:
  "\<not> (length (tweets st) < max_tweets \<and> n < max_scrolls) \<Longrightarrow>
   scroll_loop lib pg max_tweets sok kc max_scrolls n st = (Complete, n, st)"
  by (subst scroll_loop.simps) auto

lemma scroll_loop_known:
  "length (tweets st) < max_tweets \<Longrightarrow> n < max_scrolls \<Longrightarrow>
   process_articles lib max_tweets sok kc (articles_at pg n) st = (True, st1) \<Longrightarrow>
   scroll_loop lib pg max_tweets sok kc max_scrolls n st = (KnownThreshold, n, st1)"
  by (subst scroll_loop.simps) simp

lemma scroll_loop_failed:
  "length (tweets st) < max_tweets \<Longrightarrow> n < max_scrolls \<Longrightarrow>
   process_articles lib max_tweets sok kc (articles_at pg n) st = (False, st1) \<Longrightarrow>
   \<not> scroll_ok pg n \<Longrightarrow>
   scroll_loop lib pg max_tweets sok kc max_scrolls n st = (Failed, Suc n, st1)"
  by (subst scroll_loop.simps) simp

lemma scroll_loop_next:
  "length (tweets st) < max_tweets \<Longrightarrow> n < max_scrolls \<Longrightarrow>
   process_articles lib max_tweets sok kc (articles_at pg n) st = (False, st1) \<Longrightarrow>
   scroll_ok pg n \<Longrightarrow>
   scroll_loop lib pg max_tweets sok kc max_scrolls n st
     = scroll_loop lib pg max_tweets sok kc max_scrolls (Suc n) st1"
  by (subst scroll_loop.simps) simp

lemma pass_cases [case_names exit known failed go]:
  obtains
    "\<not> (length (tweets st) < max_tweets \<and> n < max_scrolls)"
  | st1 where "length (tweets st) < max_tweets" "n < max_scrolls"
      "process_articles lib max_tweets sok kc (articles_at pg n) st = (True, st1)"
  | st1 where "length (tweets st) < max_tweets" "n < max_scrolls"
      "process_articles lib max_tweets sok kc (articles_at pg n) st = (False, st1)"
      "\<not> scroll_ok pg n"
  | st1 where "length (tweets st) < max_tweets" "n < max_scrolls"
      "process_articles lib max_tweets sok kc (articles_at pg n) st = (False, st1)"
      "scroll_ok pg n"
proof (cases "length (tweets st) < max_tweets \<and> n < max_scrolls")
  case False
  then show ?thesis using that(1) by blast
next
  case True
  obtain b st1 where pa: "process_articles lib max_tweets sok kc (articles_at pg n) st = (b, st1)"
    by (cases "process_articles lib max_tweets sok kc (articles_at pg n) st")
  show ?thesis
  proof (cases b)
    case True
    with pa have "process_articles lib max_tweets sok kc (articles_at pg n) st = (True, st1)"
      by simp
    with \<open>length (tweets st) < max_tweets \<and> n < max_scrolls\<close> show ?thesis
      using that(2) by blast
  next
    case False
    with pa have "process_articles lib max_tweets sok kc (articles_at pg n) st = (False, st1)"
      by simp
    with \<open>length (tweets st) < max_tweets \<and> n < max_scrolls\<close> show ?thesis
      using that(3) that(4) by (cases "scroll_ok pg n") blast+
  qed
qed

lemma process_articles_length_le:
  "length (tweets st) \<le> max_tweets \<Longrightarrow>
   length (tweets (snd (process_articles lib max_tweets sok kc articles st))) \<le> max_tweets"
proof (induction articles arbitrary: st)
  case Nil
  then show ?case by simp
next
  case (Cons a articles)
  show ?case
  proof (cases rule: article_cases [where max_tweets=max_tweets and st=st and lib=lib and a=a and sok=sok and kc=kc])
    case break
    with Cons.prems show ?thesis by (simp add: process_articles_break)
  next
    case skip
    with Cons show ?thesis by (simp add: process_articles_skip)
  next
    case (known_stop i tweet)
    show ?thesis
      unfolding process_articles_known_stop [OF known_stop] using Cons.prems by simp
  next
    case (known_cont i tweet)
    show ?thesis
      unfolding process_articles_known_cont [OF known_cont] using Cons.prems
      by (intro Cons.IH) simp
  next
    case (new i tweet)
    show ?thesis
      unfolding process_articles_new [OF new] using new(1) by (intro Cons.IH) simp
  qed
qed

lemma scroll_loop_length_le:
  "length (tweets st) \<le> max_tweets \<Longrightarrow>
   length (tweets (snd (snd (scroll_loop lib pg max_tweets sok kc max_scrolls n st)))) \<le> max_tweets"
proof (induction lib pg max_tweets sok kc max_scrolls n st rule: scroll_loop.induct)
  case (1 lib pg max_tweets sok kc max_scrolls n st)
  have len1: "length (tweets st1) \<le> max_tweets"
    if "process_articles lib max_tweets sok kc (articles_at pg n) st = (b, st1)" for b st1
    using process_articles_length_le [OF "1.prems", of lib sok kc "articles_at pg n"] that by simp
  show ?case
  proof (cases rule: pass_cases [where st=st and max_tweets=max_tweets and n=n and max_scrolls=max_scrolls and lib=lib and sok=sok and kc=kc and pg=pg])
    case exit
    with "1.prems" show ?thesis by (simp add: scroll_loop_exit)
  next
    case (known st1)
    show ?thesis
      unfolding scroll_loop_known [OF known] using len1 [OF known(3)] by simp
  next
    case (failed st1)
    show ?thesis
      unfolding scroll_loop_failed [OF failed] using len1 [OF failed(3)] by simp
  next
    case (go st1)
    have c: "length (tweets st) < max_tweets \<and> n < max_scrolls" using go by simp
    show ?thesis
      unfolding scroll_loop_next [OF go]
      using "1.IH" [OF c go(3) [symmetric] _ go(4) len1 [OF go(3)]] by simp
  qed
qed

lemma scroll_loop_scrolls_le:
  "n \<le> max_scrolls \<Longrightarrow>
   fst (snd (scroll_loop lib pg max_tweets sok kc max_scrolls n st)) \<le> max_scrolls"
proof (induction lib pg max_tweets sok kc max_scrolls n st rule: scroll_loop.induct)
  case (1 lib pg max_tweets sok kc max_scrolls n st)
  show ?case
  proof (cases rule: pass_cases [where st=st and max_tweets=max_tweets and n=n and max_scrolls=max_scrolls and lib=lib and sok=sok and kc=kc and pg=pg])
    case exit
    with "1.prems" show ?thesis by (simp add: scroll_loop_exit)
  next
    case (known st1)
    show ?thesis
      unfolding scroll_loop_known [OF known] using known(2) by simp
  next
    case (failed st1)
    show ?thesis
      unfolding scroll_loop_failed [OF failed] using failed(2) by simp
  next
    case (go st1)
    have c: "length (tweets st) < max_tweets \<and> n < max_scrolls" using go by simp
    show ?thesis
      unfolding scroll_loop_next [OF go]
      using "1.IH" [OF c go(3) [symmetric] _ go(4)] go(2) by simp
  qed
qed

lemma fresh_id_parse:
  "fresh_id lib seen a = Some (i, tweet) \<Longrightarrow>
   article_id lib a = Some i \<and> i \<notin> seen \<and> i \<noteq> []"
  by (auto simp: fresh_id_def article_id_def split: option.splits if_splits)

lemma fresh_id_mono:
  "fresh_id lib S a = Some p \<Longrightarrow> S' \<subseteq> S \<Longrightarrow> fresh_id lib S' a = Some p"
  by (auto simp: fresh_id_def split: option.splits if_splits)

lemma process_articles_mono:
  "length (tweets st) \<le> length (tweets (snd (process_articles lib max_tweets sok kc articles st)))"
proof (induction articles arbitrary: st)
  case Nil
  then show ?case by simp
next
  case (Cons a articles)
  show ?case
  proof (cases rule: article_cases [where max_tweets=max_tweets and st=st and lib=lib and a=a and sok=sok and kc=kc])
    case break
    then show ?thesis by (simp add: process_articles_break)
  next
    case skip
    show ?thesis unfolding process_articles_skip [OF skip] by (rule Cons.IH)
  next
    case (known_stop i tweet)
    show ?thesis unfolding process_articles_known_stop [OF known_stop] by simp
  next
    case (known_cont i tweet)
    show ?thesis unfolding process_articles_known_cont [OF known_cont]
      using Cons.IH [of "st\<lparr>seen_ids := insert i (seen_ids st), consecutive_known := Suc (consecutive_known st)\<rparr>"]
      by simp
  next
    case (new i tweet)
    show ?thesis unfolding process_articles_new [OF new]
      using Cons.IH [of "st\<lparr>seen_ids := insert i (seen_ids st), consecutive_known := 0, tweets := tweets st @ [tweet]\<rparr>"]
      by simp
  qed
qed

lemma process_articles_seen:
  "seen_ids (snd (process_articles lib max_tweets sok kc articles st))
     \<subseteq> seen_ids st \<union> set (List.map_filter (article_id lib) articles)"
proof (induction articles arbitrary: st)
  case Nil
  then show ?case by simp
next
  case (Cons a articles)
  show ?case
  proof (cases rule: article_cases [where max_tweets=max_tweets and st=st and lib=lib and a=a and sok=sok and kc=kc])
    case break
    then show ?thesis by (simp add: process_articles_break)
  next
    case skip
    show ?thesis unfolding process_articles_skip [OF skip]
      using Cons.IH [of st] by (auto simp: map_filter_simps split: option.splits)
  next
    case (known_stop i tweet)
    show ?thesis unfolding process_articles_known_stop [OF known_stop]
      using fresh_id_parse [OF known_stop(2)] by (auto simp: map_filter_simps)
  next
    case (known_cont i tweet)
    show ?thesis unfolding process_articles_known_cont [OF known_cont]
      using Cons.IH [of "st\<lparr>seen_ids := insert i (seen_ids st), consecutive_known := Suc (consecutive_known st)\<rparr>"]
        fresh_id_parse [OF known_cont(2)]
      by (auto simp: map_filter_simps)
  next
    case (new i tweet)
    show ?thesis unfolding process_articles_new [OF new]
      using Cons.IH [of "st\<lparr>seen_ids := insert i (seen_ids st), consecutive_known := 0, tweets := tweets st @ [tweet]\<rparr>"]
        fresh_id_parse [OF new(2)]
      by (auto simp: map_filter_simps)
  qed
qed

lemma process_articles_no_known:
  "\<not> (sok \<and> list_ex (known_article lib kc) articles) \<Longrightarrow>
   \<not> fst (process_articles lib max_tweets sok kc articles st)"
proof (induction articles arbitrary: st)
  case Nil
  then show ?case by simp
next
  case (Cons a articles)
  have rest: "\<not> (sok \<and> list_ex (known_article lib kc) articles)" using Cons.prems by auto
  show ?case
  proof (cases rule: article_cases [where max_tweets=max_tweets and st=st and lib=lib and a=a and sok=sok and kc=kc])
    case break
    then show ?thesis by (simp add: process_articles_break)
  next
    case skip
    show ?thesis unfolding process_articles_skip [OF skip] by (rule Cons.IH [OF rest])
  next
    case (known_stop i tweet)
    then show ?thesis using Cons.prems fresh_id_parse [OF known_stop(2)]
      by (simp add: known_article_def)
  next
    case (known_cont i tweet)
    then show ?thesis using Cons.prems fresh_id_parse [OF known_cont(2)]
      by (simp add: known_article_def)
  next
    case (new i tweet)
    show ?thesis unfolding process_articles_new [OF new] by (rule Cons.IH [OF rest])
  qed
qed

lemma process_articles_progress:
  "\<not> (sok \<and> list_ex (known_article lib kc) articles) \<Longrightarrow>
   list_ex (\<lambda>a. case fresh_id lib (seen_ids st) a of None \<Rightarrow> False | Some p \<Rightarrow> True) articles \<Longrightarrow>
   length (tweets st) < max_tweets \<Longrightarrow>
   length (tweets st) < length (tweets (snd (process_articles lib max_tweets sok kc articles st)))"
proof (induction articles arbitrary: st)
  case Nil
  then show ?case by simp
next
  case (Cons a articles)
  have rest: "\<not> (sok \<and> list_ex (known_article lib kc) articles)" using Cons.prems(1) by auto
  show ?case
  proof (cases rule: article_cases [where max_tweets=max_tweets and st=st and lib=lib and a=a and sok=sok and kc=kc])
    case break
    with Cons.prems show ?thesis by simp
  next
    case skip
    have "list_ex (\<lambda>a. case fresh_id lib (seen_ids st) a of None \<Rightarrow> False | Some p \<Rightarrow> True) articles"
      using Cons.prems(2) skip(2) by simp
    then show ?thesis unfolding process_articles_skip [OF skip]
      by (rule Cons.IH [OF rest _ Cons.prems(3)])
  next
    case (known_stop i tweet)
    then show ?thesis using Cons.prems(1) fresh_id_parse [OF known_stop(2)]
      by (simp add: known_article_def)
  next
    case (known_cont i tweet)
    then show ?thesis using Cons.prems(1) fresh_id_parse [OF known_cont(2)]
      by (simp add: known_article_def)
  next
    case (new i tweet)
    show ?thesis unfolding process_articles_new [OF new]
      using process_articles_mono [of "st\<lparr>seen_ids := insert i (seen_ids st), consecutive_known := 0, tweets := tweets st @ [tweet]\<rparr>" lib max_tweets sok kc articles]
      by simp
  qed
qed


lemma shown_Suc: "shown pg (Suc n) = shown pg n @ articles_at pg n"
  by (simp add: shown_def)

lemma shown_ids_Suc:
  "shown_ids lib pg (Suc n) = shown_ids lib pg n \<union> set (List.map_filter (article_id lib) (articles_at pg n))"
  by (simp add: shown_ids_def shown_Suc List.map_filter_def)

lemma known_article_shows: "list_ex (known_article lib kc) (articles_at pg n) = shows_known lib kc pg n"
  by (simp add: shows_known_def known_article_def [abs_def])

lemma scroll_loop_productive:
  "\<forall>k<max_tweets. yields_new lib pg k \<and> scroll_ok pg k \<and> \<not> (sok \<and> shows_known lib kc pg k) \<Longrightarrow>
   max_tweets \<le> max_scrolls \<Longrightarrow>
   seen_ids st \<subseteq> shown_ids lib pg n \<Longrightarrow> min n max_tweets \<le> length (tweets st) \<Longrightarrow>
   length (tweets st) \<le> max_tweets \<Longrightarrow>
   length (tweets (snd (snd (scroll_loop lib pg max_tweets sok kc max_scrolls n st)))) = max_tweets"
proof (induction lib pg max_tweets sok kc max_scrolls n st rule: scroll_loop.induct)
  case (1 lib pg max_tweets sok kc max_scrolls n st)
  note hyp = "1.prems"(1) and le = "1.prems"(2) and seen = "1.prems"(3)
    and lo = "1.prems"(4) and hi = "1.prems"(5)
  show ?case
  proof (cases rule: pass_cases [where st=st and max_tweets=max_tweets and n=n and max_scrolls=max_scrolls and lib=lib and sok=sok and kc=kc and pg=pg])
    case exit
    then have "length (tweets st) = max_tweets" using le lo hi by auto
    with exit show ?thesis by (simp add: scroll_loop_exit)
  next
    case (known st1)
    have n: "n < max_tweets" using known(1) lo by auto
    have "\<not> fst (process_articles lib max_tweets sok kc (articles_at pg n) st)"
      using hyp n by (intro process_articles_no_known) (simp add: known_article_shows)
    with known(3) show ?thesis by simp
  next
    case (failed st1)
    have n: "n < max_tweets" using failed(1) lo by auto
    with hyp failed(4) show ?thesis by simp
  next
    case (go st1)
    have n: "n < max_tweets" using go(1) lo by auto
    have c: "length (tweets st) < max_tweets \<and> n < max_scrolls" using go by simp
    have nk: "\<not> (sok \<and> list_ex (known_article lib kc) (articles_at pg n))"
      using hyp n by (simp add: known_article_shows)
    have "list_ex (\<lambda>a. case fresh_id lib (shown_ids lib pg n) a of None \<Rightarrow> False | Some p \<Rightarrow> True) (articles_at pg n)"
      using hyp n by (simp add: yields_new_def)
    then have fr: "list_ex (\<lambda>a. case fresh_id lib (seen_ids st) a of None \<Rightarrow> False | Some p \<Rightarrow> True) (articles_at pg n)"
      using seen fresh_id_mono [of lib "shown_ids lib pg n" _ _ "seen_ids st"]
      by (fastforce simp: list_ex_iff split: option.splits)
    have grow: "length (tweets st) < length (tweets st1)"
      using process_articles_progress [OF nk fr go(1)] go(3) by simp
    have seen1: "seen_ids st1 \<subseteq> shown_ids lib pg (n + 1)"
      using process_articles_seen [of lib max_tweets sok kc "articles_at pg n" st] go(3) seen
      by (auto simp: shown_ids_Suc)
    have hi1: "length (tweets st1) \<le> max_tweets"
      using process_articles_length_le [OF hi, of lib sok kc "articles_at pg n"] go(3) by simp
    have lo1: "min (n + 1) max_tweets \<le> length (tweets st1)" using grow lo by auto
    show ?thesis
      unfolding scroll_loop_next [OF go]
      using "1.IH" [OF c go(3) [symmetric] _ go(4) hyp le seen1 lo1 hi1] by simp
  qed
qed

lemma scrape_feed_exact:
  "goto_ok pg \<Longrightarrow>
   \<forall>k<max_tweets. yields_new lib pg k \<and> scroll_ok pg k \<and> \<not> (sok \<and> shows_known lib kc pg k) \<Longrightarrow>
   length (scrape_feed lib pg max_tweets sok kc) = max_tweets"
  unfolding scrape_feed_def scrape_feed_run_def
  by (simp add: scroll_loop_productive initial_scrape_state_def SCROLL_MULTIPLIER_def)

lemma known_run3_Cons: "known_run3 es \<Longrightarrow> known_run3 (e # es)"
  by (cases es rule: known_run3.cases) simp_all

lemma known_run3_intro: "known_run3 (p @ [KnownItem a, KnownItem b, KnownItem c] @ q)"
  by (induction p) (simp_all add: known_run3_Cons)

lemma known_run3_elim:
  "known_run3 es \<Longrightarrow> \<exists>p a b c q. es = p @ [KnownItem a, KnownItem b, KnownItem c] @ q"
proof (induction es rule: known_run3.induct)
  case (1 e1 e2 e3 es)
  then consider "is_known_item e1 \<and> is_known_item e2 \<and> is_known_item e3"
    | "known_run3 (e2 # e3 # es)" by auto
  then show ?case
  proof cases
    case 1
    then obtain a b c where "e1 = KnownItem a" "e2 = KnownItem b" "e3 = KnownItem c"
      by (cases e1; cases e2; cases e3) auto
    then have "e1 # e2 # e3 # es = [] @ [KnownItem a, KnownItem b, KnownItem c] @ es" by simp
    then show ?thesis by blast
  next
    case 2
    with "1.IH" obtain p a b c q where "e2 # e3 # es = p @ [KnownItem a, KnownItem b, KnownItem c] @ q"
      by blast
    then have "e1 # e2 # e3 # es = (e1 # p) @ [KnownItem a, KnownItem b, KnownItem c] @ q" by simp
    then show ?thesis by blast
  qed
qed simp_all

lemma known_run3_iff:
  "known_run3 es = (\<exists>p a b c q. es = p @ [KnownItem a, KnownItem b, KnownItem c] @ q)"
  using known_run3_elim known_run3_intro by blast

lemma new_items_append: "new_items (xs @ ys) = new_items xs @ new_items ys"
  by (induction xs rule: new_items.induct) simp_all

lemma trailing_known_snoc:
  "trailing_known (h @ [e]) = (if is_known_item e then Suc (trailing_known h) else 0)"
  by (simp add: trailing_known_def)

lemma trailing_known_two:
  assumes "2 \<le> trailing_known h"
  shows "\<exists>p a b. h = p @ [KnownItem a, KnownItem b]"
proof (cases h rule: rev_cases)
  case Nil
  with assms show ?thesis by (simp add: trailing_known_def)
next
  case (snoc h1 e1)
  with assms have k1: "is_known_item e1" and t1: "1 \<le> trailing_known h1"
    by (auto simp: trailing_known_snoc split: if_splits)
  show ?thesis
  proof (cases h1 rule: rev_cases)
    case Nil
    with t1 show ?thesis by (simp add: trailing_known_def)
  next
    case (snoc h2 e2)
    with t1 have k2: "is_known_item e2"
      by (auto simp: trailing_known_snoc split: if_splits)
    from k1 obtain b where "e1 = KnownItem b" by (cases e1) auto
    moreover from k2 obtain a where "e2 = KnownItem a" by (cases e2) auto
    ultimately show ?thesis using \<open>h = h1 @ [e1]\<close> \<open>h1 = h2 @ [e2]\<close> by simp
  qed
qed

lemma trailing_known_three:
  assumes "3 \<le> trailing_known h"
  shows "known_run3 h"
proof (cases h rule: rev_cases)
  case Nil
  with assms show ?thesis by (simp add: trailing_known_def)
next
  case (snoc h1 e1)
  with assms have k1: "is_known_item e1" and t1: "2 \<le> trailing_known h1"
    by (auto simp: trailing_known_snoc split: if_splits)
  from k1 obtain c where "e1 = KnownItem c" by (cases e1) auto
  moreover from trailing_known_two [OF t1] obtain p a b where "h1 = p @ [KnownItem a, KnownItem b]"
    by blast
  ultimately have "h = p @ [KnownItem a, KnownItem b, KnownItem c] @ []" using snoc by simp
  then show ?thesis unfolding known_run3_iff by blast
qed

lemma known_run3_snoc:
  assumes "known_run3 (h @ [e])"
  shows "known_run3 h \<or> (is_known_item e \<and> 2 \<le> trailing_known h)"
proof -
  from assms obtain p a b c q where eq: "h @ [e] = p @ [KnownItem a, KnownItem b, KnownItem c] @ q"
    unfolding known_run3_iff by blast
  show ?thesis
  proof (cases q rule: rev_cases)
    case Nil
    with eq have "h @ [e] = (p @ [KnownItem a, KnownItem b]) @ [KnownItem c]" by simp
    then have "h = p @ [KnownItem a, KnownItem b]" and "e = KnownItem c" by simp_all
    then show ?thesis by (simp add: trailing_known_def)
  next
    case (snoc q1 e1)
    with eq have "h @ [e] = (p @ [KnownItem a, KnownItem b, KnownItem c] @ q1) @ [e1]" by simp
    then have "h = p @ [KnownItem a, KnownItem b, KnownItem c] @ q1" by simp
    then show ?thesis unfolding known_run3_iff by blast
  qed
qed

lemma process_articles_stop_events:
  "process_articles lib max_tweets True (Some f) articles st = (True, st') \<Longrightarrow>
   consecutive_known st = trailing_known h \<Longrightarrow> tweets st = new_items h \<Longrightarrow> \<not> known_run3 h \<Longrightarrow>
   \<exists>p k1 k2 k3 post.
      h @ fresh_events lib (Some f) (seen_ids st) articles
        = p @ [KnownItem k1, KnownItem k2, KnownItem k3] @ post
      \<and> \<not> known_run3 (p @ [KnownItem k1, KnownItem k2])
      \<and> tweets st' = new_items p \<and> consecutive_known st' = 3"
proof (induction articles arbitrary: st h)
  case Nil
  then show ?case by simp
next
  case (Cons a articles)
  show ?case
  proof (cases rule: article_cases [where max_tweets=max_tweets and st=st and lib=lib and a=a and sok=True and kc="Some f"])
    case break
    with Cons.prems(1) show ?thesis by (simp add: process_articles_break)
  next
    case skip
    from Cons.prems(1) have "process_articles lib max_tweets True (Some f) articles st = (True, st')"
      unfolding process_articles_skip [OF skip] .
    from Cons.IH [OF this Cons.prems(2,3,4)] skip(2) show ?thesis by simp
  next
    case (known_stop i tweet)
    from Cons.prems(1) have st': "st' = st\<lparr> seen_ids := insert i (seen_ids st),
                  consecutive_known := Suc (consecutive_known st) \<rparr>"
      unfolding process_articles_known_stop [OF known_stop] by simp
    have ck: "consecutive_known st = 2"
      using Cons.prems(2,4) trailing_known_three [of h] known_stop(5)
      by (cases "3 \<le> trailing_known h") (auto simp: MAX_CONSECUTIVE_KNOWN_def)
    then obtain p k1 k2 where h: "h = p @ [KnownItem k1, KnownItem k2]"
      using trailing_known_two [of h] Cons.prems(2) by auto
    have evs: "fresh_events lib (Some f) (seen_ids st) (a # articles)
                 = KnownItem i # fresh_events lib (Some f) (insert i (seen_ids st)) articles"
      using known_stop(2,4) by simp
    have "h @ fresh_events lib (Some f) (seen_ids st) (a # articles)
            = p @ [KnownItem k1, KnownItem k2, KnownItem i]
                @ fresh_events lib (Some f) (insert i (seen_ids st)) articles"
      unfolding evs h by simp
    moreover have "\<not> known_run3 (p @ [KnownItem k1, KnownItem k2])"
      using Cons.prems(4) h by simp
    moreover have "tweets st' = new_items p"
      using st' Cons.prems(3) h by (simp add: new_items_append)
    moreover have "consecutive_known st' = 3" using st' ck by simp
    ultimately show ?thesis by blast
  next
    case (known_cont i tweet)
    let ?st2 = "st\<lparr> seen_ids := insert i (seen_ids st), consecutive_known := Suc (consecutive_known st) \<rparr>"
    let ?h = "h @ [KnownItem i]"
    from Cons.prems(1) have run: "process_articles lib max_tweets True (Some f) articles ?st2 = (True, st')"
      unfolding process_articles_known_cont [OF known_cont] .
    have a: "consecutive_known ?st2 = trailing_known ?h"
      using Cons.prems(2) by (simp add: trailing_known_snoc)
    have b: "tweets ?st2 = new_items ?h" using Cons.prems(3) by (simp add: new_items_append)
    have c: "\<not> known_run3 ?h"
      using known_run3_snoc [of h "KnownItem i"] Cons.prems(2,4) known_cont(5)
      by (auto simp: MAX_CONSECUTIVE_KNOWN_def)
    from Cons.IH [OF run a b c] known_cont(2,4) show ?thesis by simp
  next
    case (new i tweet)
    let ?st3 = "st\<lparr> seen_ids := insert i (seen_ids st), consecutive_known := 0, tweets := tweets st @ [tweet] \<rparr>"
    let ?h = "h @ [NewItem tweet]"
    from Cons.prems(1) have run: "process_articles lib max_tweets True (Some f) articles ?st3 = (True, st')"
      unfolding process_articles_new [OF new] .
    have a: "consecutive_known ?st3 = trailing_known ?h"
      by (simp add: trailing_known_snoc)
    have b: "tweets ?st3 = new_items ?h" using Cons.prems(3) by (simp add: new_items_append)
    have c: "\<not> known_run3 ?h"
      using known_run3_snoc [of h "NewItem tweet"] Cons.prems(4) by auto
    from Cons.IH [OF run a b c] new(2,3) show ?thesis by simp
  qed
qed


lemma process_articles_append:
  "process_articles lib max_tweets sok kc (xs @ ys) st =
     (case process_articles lib max_tweets sok kc xs st of
        (True, st1) \<Rightarrow> (True, st1)
      | (False, st1) \<Rightarrow> process_articles lib max_tweets sok kc ys st1)"
proof (induction xs arbitrary: st)
  case Nil
  then show ?case by simp
next
  case (Cons a xs)
  show ?case
  proof (cases rule: article_cases [where max_tweets=max_tweets and st=st and lib=lib and a=a and sok=sok and kc=kc])
    case break
    then show ?thesis by (cases ys) (simp_all add: process_articles_break)
  next
    case skip
    show ?thesis 
      using Cons.IH [of st] by (simp add: process_articles_skip [OF skip])
  next
    case (known_stop i tweet)
    show ?thesis by (simp add: process_articles_known_stop [OF known_stop])
  next
    case (known_cont i tweet)
    show ?thesis
      using Cons.IH [of "st\<lparr>seen_ids := insert i (seen_ids st), consecutive_known := Suc (consecutive_known st)\<rparr>"]
      by (simp add: process_articles_known_cont [OF known_cont])
  next
    case (new i tweet)
    show ?thesis
      using Cons.IH [of "st\<lparr>seen_ids := insert i (seen_ids st), consecutive_known := 0, tweets := tweets st @ [tweet]\<rparr>"]
      by (simp add: process_articles_new [OF new])
  qed
qed

lemma passes_step: "n < m \<Longrightarrow> passes pg n m = articles_at pg n @ passes pg (Suc n) m"
  by (simp add: passes_def upt_conv_Cons)

lemma scroll_loop_known_flat:
  "scroll_loop lib pg max_tweets sok kc max_scrolls n st = (KnownThreshold, k, st') \<Longrightarrow>
   n \<le> k \<and> process_articles lib max_tweets sok kc (passes pg n (Suc k)) st = (True, st')"
proof (induction lib pg max_tweets sok kc max_scrolls n st rule: scroll_loop.induct)
  case (1 lib pg max_tweets sok kc max_scrolls n st)
  show ?case
  proof (cases rule: pass_cases [where st=st and max_tweets=max_tweets and n=n and max_scrolls=max_scrolls and lib=lib and sok=sok and kc=kc and pg=pg])
    case exit
    with "1.prems" show ?thesis by (simp add: scroll_loop_exit)
  next
    case (known st1)
    with "1.prems" have "k = n" "st' = st1" by (simp_all add: scroll_loop_known)
    with known(3) show ?thesis by (simp add: passes_def)
  next
    case (failed st1)
    with "1.prems" show ?thesis by (simp add: scroll_loop_failed)
  next
    case (go st1)
    have c: "length (tweets st) < max_tweets \<and> n < max_scrolls" using go by simp
    from "1.prems" have "scroll_loop lib pg max_tweets sok kc max_scrolls (n + 1) st1 = (KnownThreshold, k, st')"
      unfolding scroll_loop_next [OF go] by simp
    from "1.IH" [OF c go(3) [symmetric] _ go(4) this]
    have nk: "n + 1 \<le> k" and r: "process_articles lib max_tweets sok kc (passes pg (n + 1) (Suc k)) st1 = (True, st')"
      by simp_all
    have "passes pg n (Suc k) = articles_at pg n @ passes pg (Suc n) (Suc k)"
      using nk by (intro passes_step) simp
    with r go(3) nk show ?thesis by (simp add: process_articles_append)
  qed
qed

lemma scrape_feed_run_stop_events:
  assumes "scrape_feed_run lib pg max_tweets True (Some f) = (KnownThreshold, n, st)"
  shows "\<exists>pre k1 k2 k3 post.
      fresh_events lib (Some f) {} (shown pg (Suc n))
        = pre @ [KnownItem k1, KnownItem k2, KnownItem k3] @ post
      \<and> \<not> known_run3 (pre @ [KnownItem k1, KnownItem k2])
      \<and> tweets st = new_items pre \<and> consecutive_known st = 3"
proof -
  from assms have g: "goto_ok pg"
    and run: "scroll_loop lib pg max_tweets True (Some f) (max_tweets * SCROLL_MULTIPLIER) 0 initial_scrape_state = (KnownThreshold, n, st)"
    by (auto simp: scrape_feed_run_def split: if_splits)
  from scroll_loop_known_flat [OF run]
  have pa: "process_articles lib max_tweets True (Some f) (shown pg (Suc n)) initial_scrape_state = (True, st)"
    by (simp add: passes_def shown_def)
  have nr: "\<not> known_run3 []" by simp
  from process_articles_stop_events [OF pa, of "[]"] nr
  show ?thesis by (simp add: initial_scrape_state_def trailing_known_def)
qed

lemma known_run3_prefix: "known_run3 xs \<Longrightarrow> known_run3 (xs @ ys)"
  unfolding known_run3_iff by (metis append.assoc)

lemma process_articles_full:
  "max_tweets \<le> length (tweets st) \<Longrightarrow>
   process_articles lib max_tweets sok kc articles st = (False, st)"
  by (cases articles) (simp_all add: process_articles_break)

lemma process_articles_reaches_run:
  "consecutive_known st = trailing_known h \<Longrightarrow> tweets st = new_items h \<Longrightarrow>
   h @ us = p @ [KnownItem k1, KnownItem k2] \<Longrightarrow>
   fresh_events lib (Some f) (seen_ids st) articles = us @ KnownItem k3 # post \<Longrightarrow>
   \<not> known_run3 (p @ [KnownItem k1, KnownItem k2]) \<Longrightarrow>
   length (new_items p) < max_tweets \<Longrightarrow>
   \<exists>st'. process_articles lib max_tweets True (Some f) articles st = (True, st')
         \<and> tweets st' = new_items p"
proof (induction articles arbitrary: st h us)
  case Nil
  then show ?case by simp
next
  case (Cons a articles)
  note ck = Cons.prems(1) and tw = Cons.prems(2) and dec = Cons.prems(3)
    and evs = Cons.prems(4) and first = Cons.prems(5) and room = Cons.prems(6)
  have len_h: "length (new_items h) \<le> length (new_items p)"
  proof -
    have "new_items h @ new_items us = new_items p"
      using arg_cong [OF dec, of new_items] by (simp add: new_items_append)
    then show ?thesis by (metis length_append le_add1)
  qed
  have nostop: "trailing_known h < 2" if "us = KnownItem i # us1" for i us1
  proof (rule ccontr)
    assume "\<not> trailing_known h < 2"
    then have "2 \<le> trailing_known h" by simp
    from trailing_known_two [OF this] obtain q a b where "h = q @ [KnownItem a, KnownItem b]"
      by blast
    with that dec have "p @ [KnownItem k1, KnownItem k2] = (q @ [KnownItem a, KnownItem b, KnownItem i] @ []) @ us1"
      by simp
    moreover have "known_run3 (q @ [KnownItem a, KnownItem b, KnownItem i] @ [])"
      unfolding known_run3_iff by blast
    ultimately show False using first known_run3_prefix by metis
  qed
  show ?case
  proof (cases rule: article_cases [where max_tweets=max_tweets and st=st and lib=lib and a=a and sok=True and kc="Some f"])
    case break
    with tw len_h room show ?thesis by simp
  next
    case skip
    from evs skip(2) have "fresh_events lib (Some f) (seen_ids st) articles = us @ KnownItem k3 # post"
      by simp
    from Cons.IH [OF ck tw dec this first room] show ?thesis
      unfolding process_articles_skip [OF skip] .
  next
    case (known_stop i tweet)
    from evs known_stop(2,4)
    have e: "KnownItem i # fresh_events lib (Some f) (insert i (seen_ids st)) articles = us @ KnownItem k3 # post"
      by simp
    show ?thesis
    proof (cases us)
      case Nil
      with dec have "h = p @ [KnownItem k1, KnownItem k2]" by simp
      with tw have "tweets st = new_items p" by (simp add: new_items_append)
      then show ?thesis unfolding process_articles_known_stop [OF known_stop] by simp
    next
      case (Cons e1 us1)
      with e have "e1 = KnownItem i" by simp
      with Cons nostop have "trailing_known h < 2" by blast
      with ck known_stop(5) show ?thesis by (simp add: MAX_CONSECUTIVE_KNOWN_def)
    qed
  next
    case (known_cont i tweet)
    let ?st2 = "st\<lparr> seen_ids := insert i (seen_ids st), consecutive_known := Suc (consecutive_known st) \<rparr>"
    let ?h = "h @ [KnownItem i]"
    from evs known_cont(2,4)
    have e: "KnownItem i # fresh_events lib (Some f) (insert i (seen_ids st)) articles = us @ KnownItem k3 # post"
      by simp
    show ?thesis
    proof (cases us)
      case Nil
      with dec have "h = p @ [KnownItem k1, KnownItem k2]" by simp
      then have "2 \<le> trailing_known h" by (simp add: trailing_known_def)
      with ck known_cont(5) show ?thesis by (simp add: MAX_CONSECUTIVE_KNOWN_def)
    next
      case (Cons e1 us1)
      with e have e1: "e1 = KnownItem i"
        and rest: "fresh_events lib (Some f) (seen_ids ?st2) articles = us1 @ KnownItem k3 # post"
        by simp_all
      have a: "consecutive_known ?st2 = trailing_known ?h"
        using ck by (simp add: trailing_known_snoc)
      have b: "tweets ?st2 = new_items ?h" using tw by (simp add: new_items_append)
      have c: "?h @ us1 = p @ [KnownItem k1, KnownItem k2]" using dec Cons e1 by simp
      from Cons.IH [OF a b c rest first room] show ?thesis
        unfolding process_articles_known_cont [OF known_cont] .
    qed
  next
    case (new i tweet)
    let ?st3 = "st\<lparr> seen_ids := insert i (seen_ids st), consecutive_known := 0, tweets := tweets st @ [tweet] \<rparr>"
    let ?h = "h @ [NewItem tweet]"
    from evs new(2,3)
    have e: "NewItem tweet # fresh_events lib (Some f) (insert i (seen_ids st)) articles = us @ KnownItem k3 # post"
      by simp
    show ?thesis
    proof (cases us)
      case Nil
      with e show ?thesis by simp
    next
      case (Cons e1 us1)
      with e have e1: "e1 = NewItem tweet"
        and rest: "fresh_events lib (Some f) (seen_ids ?st3) articles = us1 @ KnownItem k3 # post"
        by simp_all
      have a: "consecutive_known ?st3 = trailing_known ?h"
        by (simp add: trailing_known_snoc)
      have b: "tweets ?st3 = new_items ?h" using tw by (simp add: new_items_append)
      have c: "?h @ us1 = p @ [KnownItem k1, KnownItem k2]" using dec Cons e1 by simp
      from Cons.IH [OF a b c rest first room] show ?thesis
        unfolding process_articles_new [OF new] .
    qed
  qed
qed

lemma scroll_loop_reaches_stop:
  "process_articles lib max_tweets sok kc (passes pg k (Suc n)) st = (True, st') \<Longrightarrow>
   k \<le> n \<Longrightarrow> n < max_scrolls \<Longrightarrow> \<forall>j<n. scroll_ok pg j \<Longrightarrow>
   \<exists>m\<le>n. scroll_loop lib pg max_tweets sok kc max_scrolls k st = (KnownThreshold, m, st')"
proof (induction lib pg max_tweets sok kc max_scrolls k st rule: scroll_loop.induct)
  case (1 lib pg max_tweets sok kc max_scrolls k st)
  note run = "1.prems"(1) and kn = "1.prems"(2) and budget = "1.prems"(3) and ok = "1.prems"(4)
  have split: "passes pg k (Suc n) = articles_at pg k @ passes pg (Suc k) (Suc n)"
    using kn by (intro passes_step) simp
  show ?case
  proof (cases rule: pass_cases [where st=st and max_tweets=max_tweets and n=k and max_scrolls=max_scrolls and lib=lib and sok=sok and kc=kc and pg=pg])
    case exit
    with kn budget have "max_tweets \<le> length (tweets st)" by simp
    from process_articles_full [OF this] run show ?thesis by simp
  next
    case (known st1)
    from run have "st' = st1" unfolding split process_articles_append known(3) by simp
    with kn show ?thesis unfolding scroll_loop_known [OF known] by blast
  next
    case (failed st1)
    from run have r: "process_articles lib max_tweets sok kc (passes pg (Suc k) (Suc n)) st1 = (True, st')"
      unfolding split process_articles_append failed(3) by simp
    have "k = n" using failed(4) ok kn by (cases "k < n") auto
    with r show ?thesis by (simp add: passes_def)
  next
    case (go st1)
    from run have r: "process_articles lib max_tweets sok kc (passes pg (k + 1) (Suc n)) st1 = (True, st')"
      unfolding split process_articles_append go(3) by simp
    have "k \<noteq> n" using r by (auto simp: passes_def)
    with kn have kn1: "k + 1 \<le> n" by simp
    have c: "length (tweets st) < max_tweets \<and> k < max_scrolls" using go by simp
    from "1.IH" [OF c go(3) [symmetric] _ go(4) r kn1 budget ok]
    show ?thesis unfolding scroll_loop_next [OF go] by simp
  qed
qed

lemma scrape_feed_run_reaches_stop:
  assumes "goto_ok pg" and "n < max_tweets * 2" and "\<forall>j<n. scroll_ok pg j"
    and "fresh_events lib (Some f) {} (shown pg (Suc n))
           = pre @ [KnownItem k1, KnownItem k2, KnownItem k3] @ post"
    and "\<not> known_run3 (pre @ [KnownItem k1, KnownItem k2])"
    and "length (new_items pre) < max_tweets"
  shows "\<exists>m st. m \<le> n \<and> scrape_feed_run lib pg max_tweets True (Some f) = (KnownThreshold, m, st)
            \<and> tweets st = new_items pre"
proof -
  have e: "fresh_events lib (Some f) (seen_ids initial_scrape_state) (shown pg (Suc n))
             = (pre @ [KnownItem k1, KnownItem k2]) @ KnownItem k3 # post"
    using assms(4) by (simp add: initial_scrape_state_def)
  have "\<exists>st'. process_articles lib max_tweets True (Some f) (shown pg (Suc n)) initial_scrape_state = (True, st')
         \<and> tweets st' = new_items pre"
    by (rule process_articles_reaches_run [where h="[]" and us="pre @ [KnownItem k1, KnownItem k2]", OF _ _ _ e assms(5,6)])
       (simp_all add: initial_scrape_state_def trailing_known_def)
  then obtain st' where pa: "process_articles lib max_tweets True (Some f) (passes pg 0 (Suc n)) initial_scrape_state = (True, st')"
    and tw: "tweets st' = new_items pre"
    by (auto simp: shown_def passes_def)
  from scroll_loop_reaches_stop [OF pa _ _ assms(3), of "max_tweets * SCROLL_MULTIPLIER"] assms(2)
  obtain m where "m \<le> n" "scroll_loop lib pg max_tweets True (Some f) (max_tweets * SCROLL_MULTIPLIER) 0 initial_scrape_state = (KnownThreshold, m, st')"
    by (auto simp: SCROLL_MULTIPLIER_def)
  with tw assms(1) show ?thesis by (auto simp: scrape_feed_run_def)
qed

subsection \<open>Early stop and bounds of the acquisition loop\<close>

text \<open>
  C3. With \<open>stop_on_known\<close> enabled and an oracle supplied, the run ends on the known-item
  threshold exactly at the first three known first-time items in a row. First conjunct: if the
  items shown up to pass \<open>n\<close> are \<open>pre\<close>, then three known items, then \<open>post\<close>, with no
  earlier such run, fewer than \<open>max_tweets\<close> new items in \<open>pre\<close>, \<open>n\<close> within the scroll budget
  and the scrolls before it succeeding, then the run stops on the threshold and returns exactly
  the new items of \<open>pre\<close>: nothing of \<open>post\<close> is processed. Second conjunct: whenever the run
  stops on the threshold, the items shown decompose in this way, the counter is 3 and the
  result is the new items before the run; a new item between known ones resets the counter,
  so known items separated by new ones never stop the loop.
\<close>

theorem scrape_feed_known_run:
  "(goto_ok pg \<and> n < max_tweets * 2 \<and> (\<forall>j<n. scroll_ok pg j)
      \<and> fresh_events lib (Some known) {} (shown pg (Suc n))
            = pre @ [KnownItem k1, KnownItem k2, KnownItem k3] @ post
      \<and> \<not> known_run3 (pre @ [KnownItem k1, KnownItem k2])
      \<and> length (new_items pre) < max_tweets
     \<longrightarrow> fst (scrape_feed_run lib pg max_tweets True (Some known)) = KnownThreshold
         \<and> fst (snd (scrape_feed_run lib pg max_tweets True (Some known))) \<le> n
         \<and> scrape_feed lib pg max_tweets True (Some known) = new_items pre)
   \<and> (scrape_feed_run lib pg max_tweets True (Some known) = (KnownThreshold, m, st)
     \<longrightarrow> (\<exists>pre k1 k2 k3 post.
            fresh_events lib (Some known) {} (shown pg (Suc m))
              = pre @ [KnownItem k1, KnownItem k2, KnownItem k3] @ post
            \<and> \<not> known_run3 (pre @ [KnownItem k1, KnownItem k2])
            \<and> tweets st = new_items pre \<and> consecutive_known st = 3))"
proof (intro conjI impI)
  assume h: "goto_ok pg \<and> n < max_tweets * 2 \<and> (\<forall>j<n. scroll_ok pg j)
      \<and> fresh_events lib (Some known) {} (shown pg (Suc n))
            = pre @ [KnownItem k1, KnownItem k2, KnownItem k3] @ post
      \<and> \<not> known_run3 (pre @ [KnownItem k1, KnownItem k2])
      \<and> length (new_items pre) < max_tweets"
  then obtain m st where r: "m \<le> n"
      "scrape_feed_run lib pg max_tweets True (Some known) = (KnownThreshold, m, st)"
      "tweets st = new_items pre"
    using scrape_feed_run_reaches_stop [of pg n max_tweets lib known pre k1 k2 k3 post] by blast
  from r show "fst (scrape_feed_run lib pg max_tweets True (Some known)) = KnownThreshold" by simp
  from r show "fst (snd (scrape_feed_run lib pg max_tweets True (Some known))) \<le> n" by simp
  from r show "scrape_feed lib pg max_tweets True (Some known) = new_items pre"
    by (simp add: scrape_feed_def)
next
  assume "scrape_feed_run lib pg max_tweets True (Some known) = (KnownThreshold, m, st)"
  then show "\<exists>pre k1 k2 k3 post.
            fresh_events lib (Some known) {} (shown pg (Suc m))
              = pre @ [KnownItem k1, KnownItem k2, KnownItem k3] @ post
            \<and> \<not> known_run3 (pre @ [KnownItem k1, KnownItem k2])
            \<and> tweets st = new_items pre \<and> consecutive_known st = 3"
    by (rule scrape_feed_run_stop_events)
qed

lemma caught_up_events:
  "fresh_events sample_lib (Some stored_ids) {} (shown caught_up_page (Suc 0))
     = [NewItem (plain_tweet ''9'')] @ [KnownItem ''1'', KnownItem ''2'', KnownItem ''3'']
         @ [NewItem (plain_tweet ''4''), NewItem (plain_tweet ''5'')]"
  by code_simp

lemma caught_up_run:
  "scrape_feed_run sample_lib caught_up_page 10 True (Some stored_ids)
     = (KnownThreshold, 0,
        \<lparr> tweets = [plain_tweet ''9''], seen_ids = {''9'', ''1'', ''2'', ''3''},
          consecutive_known = 3 \<rparr>)"
  by code_simp

theorem scrape_feed_known_run_witness:
  "scrape_feed sample_lib caught_up_page 10 True (Some stored_ids) = [plain_tweet ''9'']
   \<and> fst (scrape_feed_run sample_lib caught_up_page 10 True (Some stored_ids)) = KnownThreshold
   \<and> (\<exists>pre k1 k2 k3 post.
         fresh_events sample_lib (Some stored_ids) {} (shown caught_up_page (Suc 0))
           = pre @ [KnownItem k1, KnownItem k2, KnownItem k3] @ post
         \<and> \<not> known_run3 (pre @ [KnownItem k1, KnownItem k2])
         \<and> [plain_tweet ''9''] = new_items pre)"
proof -
  have g: "goto_ok caught_up_page" by (simp add: caught_up_page_def)
  have nr: "\<not> known_run3 ([NewItem (plain_tweet ''9'')] @ [KnownItem ''1'', KnownItem ''2''])"
    by simp
  have room: "length (new_items [NewItem (plain_tweet ''9'')]) < 10" by simp
  have fwd: "fst (scrape_feed_run sample_lib caught_up_page 10 True (Some stored_ids)) = KnownThreshold
      \<and> scrape_feed sample_lib caught_up_page 10 True (Some stored_ids) = new_items [NewItem (plain_tweet ''9'')]"
    using scrape_feed_known_run [of caught_up_page 0 10 sample_lib stored_ids
        "[NewItem (plain_tweet ''9'')]" "''1''" "''2''" "''3''"
        "[NewItem (plain_tweet ''4''), NewItem (plain_tweet ''5'')]"]
      g nr room caught_up_events
    by simp
  have bwd: "\<exists>pre k1 k2 k3 post.
         fresh_events sample_lib (Some stored_ids) {} (shown caught_up_page (Suc 0))
           = pre @ [KnownItem k1, KnownItem k2, KnownItem k3] @ post
         \<and> \<not> known_run3 (pre @ [KnownItem k1, KnownItem k2])
         \<and> tweets \<lparr> tweets = [plain_tweet ''9''], seen_ids = {''9'', ''1'', ''2'', ''3''},
          consecutive_known = 3 \<rparr> = new_items pre \<and> consecutive_known \<lparr> tweets = [plain_tweet ''9''], seen_ids = {''9'', ''1'', ''2'', ''3''},
          consecutive_known = 3 \<rparr> = 3"
    using scrape_feed_known_run [of caught_up_page 0 10 sample_lib stored_ids
        "[]" "''1''" "''2''" "''3''" "[]" 0 "\<lparr> tweets = [plain_tweet ''9''], seen_ids = {''9'', ''1'', ''2'', ''3''},
          consecutive_known = 3 \<rparr>"] caught_up_run
    by blast
  from fwd bwd show ?thesis by simp
qed

text \<open>
  C4. For every \<open>max_tweets\<close> and every feed the result has at most \<open>max_tweets\<close> records and
  at most \<open>max_tweets * 2\<close> scrolls are attempted (the loop is a total function: its
  termination is proved with the measure \<open>max_scrolls - scroll_count\<close>). On a feed whose every
  pass below \<open>max_tweets\<close> shows an item not shown before, whose scrolls succeed and which
  shows nothing the oracle knows (or with \<open>stop_on_known\<close> off), the result has exactly
  \<open>max_tweets\<close> records.
\<close>

theorem scrape_feed_bounded:
  "length (scrape_feed lib pg max_tweets sok kc) \<le> max_tweets
   \<and> fst (snd (scrape_feed_run lib pg max_tweets sok kc)) \<le> max_tweets * 2
   \<and> (goto_ok pg
        \<and> (\<forall>k<max_tweets. yields_new lib pg k \<and> scroll_ok pg k \<and> \<not> (sok \<and> shows_known lib kc pg k))
      \<longrightarrow> length (scrape_feed lib pg max_tweets sok kc) = max_tweets)"
proof (intro conjI impI)
  show "length (scrape_feed lib pg max_tweets sok kc) \<le> max_tweets"
    unfolding scrape_feed_def scrape_feed_run_def
    by (simp add: scroll_loop_length_le initial_scrape_state_def)
  show "fst (snd (scrape_feed_run lib pg max_tweets sok kc)) \<le> max_tweets * 2"
    unfolding scrape_feed_run_def
    using scroll_loop_scrolls_le [of 0 "max_tweets * 2" lib pg max_tweets sok kc initial_scrape_state]
    by (simp add: SCROLL_MULTIPLIER_def)
  assume "goto_ok pg \<and> (\<forall>k<max_tweets. yields_new lib pg k \<and> scroll_ok pg k \<and> \<not> (sok \<and> shows_known lib kc pg k))"
  then show "length (scrape_feed lib pg max_tweets sok kc) = max_tweets"
    using scrape_feed_exact by blast
qed

lemma endless_page_yields:
  "yields_new sample_lib endless_page 0 \<and> yields_new sample_lib endless_page (Suc 0)
   \<and> \<not> shows_known sample_lib (Some stored_ids) endless_page 0
   \<and> \<not> shows_known sample_lib (Some stored_ids) endless_page (Suc 0)"
  by code_simp

theorem scrape_feed_bounded_witness:
  "length (scrape_feed sample_lib endless_page 2 True (Some stored_ids)) = 2
   \<and> fst (snd (scrape_feed_run sample_lib endless_page 2 True (Some stored_ids))) \<le> 4"
proof -
  have g: "goto_ok endless_page" by (simp add: endless_page_def)
  have h: "\<forall>k<2. yields_new sample_lib endless_page k \<and> scroll_ok endless_page k
             \<and> \<not> (True \<and> shows_known sample_lib (Some stored_ids) endless_page k)"
  proof (intro allI impI)
    fix k :: nat assume "k < 2"
    then have "k = 0 \<or> k = Suc 0" by auto
    then show "yields_new sample_lib endless_page k \<and> scroll_ok endless_page k
             \<and> \<not> (True \<and> shows_known sample_lib (Some stored_ids) endless_page k)"
      using endless_page_yields by (auto simp: endless_page_def)
  qed
  from scrape_feed_bounded [of sample_lib endless_page 2 True "Some stored_ids"] g h
  show ?thesis by simp
qed

subsection \<open>Identity-first parsing and ingestion\<close>

lemma search_status_digits: "search_status s = Some i \<Longrightarrow> isdigit i"
proof (induction s)
  case Nil
  then show ?case by simp
next
  case (Cons c cs)
  show ?case
  proof (cases "startswith (c # cs) ''/status/'' \<and> takeWhile is_digit (drop 8 (c # cs)) \<noteq> []")
    case True
    with Cons.prems have "i = takeWhile is_digit (drop 8 (c # cs))" by simp
    with True show ?thesis
      by (auto simp: isdigit_def list_all_iff dest: set_takeWhileD)
  next
    case False
    with Cons show ?thesis by (simp split: if_splits)
  qed
qed

lemma first_status_id_digits: "first_status_id hs = Some i \<Longrightarrow> isdigit i"
  by (induction hs) (auto split: option.splits if_splits dest: search_status_digits)

lemma extract_tweet_id_digits: "extract_tweet_id a = Some i \<Longrightarrow> isdigit i"
  by (auto simp: extract_tweet_id_def split: option.splits if_splits
           dest: search_status_digits first_status_id_digits)

lemma extract_tweet_id_permalinks_only:
  "extract_tweet_id
     (a\<lparr> social_context := sc, user_links := ul, tweet_text := tt, article_text := txt,
         user_name_cells := cells, time_datetime := dt, button_of := bs, photo_srcs := ps \<rparr>)
   = extract_tweet_id a"
  by (simp add: extract_tweet_id_def split: option.splits)

lemma extract_author_info_id: "id_str (extract_author_info ls td) = id_str td"
  by (induction ls arbitrary: td) (simp_all add: Let_def)

lemma find_reply_link_id: "id_str (find_reply_link ls td) = id_str td"
  by (induction ls arbitrary: td) simp_all

lemma extract_reply_context_id: "id_str (extract_reply_context a td) = id_str td"
  by (simp add: extract_reply_context_def Let_def find_reply_link_id)

lemma parse_tweet_id:
  "parse_tweet lib a = Some tweet \<Longrightarrow> id_str tweet = extract_tweet_id a"
  by (auto simp: parse_tweet_def Let_def extract_author_info_id extract_reply_context_id
           split: option.splits if_splits)

lemma map_filter_empty: "(List.map_filter f xs = []) = (\<forall>x\<in>set xs. f x = None)"
  by (induction xs) (auto split: option.splits)

lemma set_map_filter: "set (List.map_filter f xs) = {y. \<exists>x\<in>set xs. f x = Some y}"
  by (induction xs) (auto split: option.splits)

lemma truthy_id_Some: "truthy_id t = Some i \<Longrightarrow> id_str t = Some i \<and> i \<noteq> []"
  by (auto simp: truthy_id_def split: option.splits if_splits)

lemma insert_loop_rows:
  "r \<in> set (insert_loop lib now uid ex k raw_tweets) \<Longrightarrow>
   \<exists>t\<in>set raw_tweets. truthy_id t = Some (tweet_id r) \<and> user_id r = uid \<and> tweet_id r \<notin> ex"
proof (induction raw_tweets arbitrary: k)
  case Nil
  then show ?case by simp
next
  case (Cons t raw_tweets)
  show ?case
  proof (cases "truthy_id t")
    case None
    with Cons show ?thesis by auto
  next
    case (Some i)
    show ?thesis
    proof (cases "i \<in> ex")
      case True
      with Some Cons show ?thesis by auto
    next
      case False
      with Some Cons.prems
      have "(tweet_id r = i \<and> user_id r = uid) \<or> r \<in> set (insert_loop lib now uid ex (Suc k) raw_tweets)"
        by auto
      with Some False Cons.IH show ?thesis by auto
    qed
  qed
qed

lemma insert_loop_covers:
  "t \<in> set raw_tweets \<Longrightarrow> truthy_id t = Some i \<Longrightarrow> i \<notin> ex \<Longrightarrow>
   \<exists>r\<in>set (insert_loop lib now uid ex k raw_tweets). tweet_id r = i \<and> user_id r = uid"
proof (induction raw_tweets arbitrary: k)
  case Nil
  then show ?case by simp
next
  case (Cons x raw_tweets)
  show ?case
  proof (cases "t = x")
    case True
    with Cons.prems show ?thesis by simp
  next
    case False
    with Cons.prems have "t \<in> set raw_tweets" by simp
    from Cons.IH [OF this Cons.prems(2,3)] show ?thesis
      by (auto split: option.splits)
  qed
qed

lemma insert_loop_empty:
  "\<forall>t\<in>set raw_tweets. \<forall>i. truthy_id t = Some i \<longrightarrow> i \<in> ex \<Longrightarrow>
   insert_loop lib now uid ex k raw_tweets = []"
  by (induction raw_tweets arbitrary: k) (auto split: option.splits)

lemma store_tweets_batch_Inr:
  assumes "store_tweets_batch lib now db uid raw_tweets = Inr (n, db1)"
  shows "\<exists>added. db1 = db\<lparr> web_tweets := web_tweets db @ added \<rparr> \<and> length added = n
           \<and> (\<forall>r\<in>set added. \<exists>t\<in>set raw_tweets. truthy_id t = Some (tweet_id r) \<and> user_id r = uid)
           \<and> (\<forall>t\<in>set raw_tweets. \<forall>i. truthy_id t = Some i \<longrightarrow>
                 (\<exists>r\<in>set (web_tweets db @ added). tweet_id r = i \<and> user_id r = uid))
           \<and> (n \<noteq> 0 \<longrightarrow> uq_tweet_user (web_tweets db @ added))"
proof -
  let ?ids = "List.map_filter truthy_id raw_tweets"
  let ?ex = "set (map tweet_id (filter (\<lambda>r. tweet_id r \<in> set ?ids \<and> user_id r = uid) (web_tweets db)))"
  let ?added = "insert_loop lib now uid ?ex 0 raw_tweets"
  have src: "\<forall>r\<in>set ?added. \<exists>t\<in>set raw_tweets. truthy_id t = Some (tweet_id r) \<and> user_id r = uid"
    using insert_loop_rows [of _ lib now uid ?ex 0 raw_tweets] by blast
  have cover: "\<exists>r\<in>set (web_tweets db @ ?added). tweet_id r = i \<and> user_id r = uid"
    if "t \<in> set raw_tweets" "truthy_id t = Some i" for t i
  proof (cases "i \<in> ?ex")
    case True
    then show ?thesis by auto
  next
    case False
    from insert_loop_covers [OF that False, of lib now uid 0] show ?thesis by auto
  qed
  show ?thesis
  proof (cases "?ids = []")
    case True
    with assms have "n = 0" "db1 = db" by (simp_all add: store_tweets_batch_def)
    moreover from True have "\<forall>t\<in>set raw_tweets. truthy_id t = None" by (simp add: map_filter_empty)
    ultimately show ?thesis by (intro exI [of _ "[]"]) simp
  next
    case ids: False
    show ?thesis
    proof (cases "?added = []")
      case True
      with assms ids have "n = 0" "db1 = db" by (simp_all add: store_tweets_batch_def Let_def)
      with True cover show ?thesis by (intro exI [of _ "[]"]) auto
    next
      case False
      with assms ids have "uq_tweet_user (web_tweets db @ ?added)" "n = length ?added"
        "db1 = db\<lparr> web_tweets := web_tweets db @ ?added \<rparr>"
        by (auto simp: store_tweets_batch_def Let_def split: if_splits)
      with src cover show ?thesis by (intro exI [of _ ?added]) blast
    qed
  qed
qed

lemma store_tweets_batch_again:
  assumes "store_tweets_batch lib now db uid raw_tweets = Inr (n, db1)"
  shows "store_tweets_batch lib now2 db1 uid raw_tweets = Inr (0, db1)"
proof -
  from store_tweets_batch_Inr [OF assms] obtain added where
    db1: "db1 = db\<lparr> web_tweets := web_tweets db @ added \<rparr>"
    and cover: "\<forall>t\<in>set raw_tweets. \<forall>i. truthy_id t = Some i \<longrightarrow>
                 (\<exists>r\<in>set (web_tweets db @ added). tweet_id r = i \<and> user_id r = uid)"
    by blast
  let ?ids = "List.map_filter truthy_id raw_tweets"
  let ?ex = "set (map tweet_id (filter (\<lambda>r. tweet_id r \<in> set ?ids \<and> user_id r = uid) (web_tweets db1)))"
  have "i \<in> ?ex" if "t \<in> set raw_tweets" "truthy_id t = Some i" for t i
  proof -
    from that cover obtain r where "r \<in> set (web_tweets db1)" "tweet_id r = i" "user_id r = uid"
      unfolding db1 by auto
    moreover have "i \<in> set ?ids" using that by (auto simp: set_map_filter)
    ultimately show ?thesis by force
  qed
  then have "insert_loop lib now2 uid ?ex 0 raw_tweets = []"
    by (intro insert_loop_empty) blast
  then show ?thesis by (simp add: store_tweets_batch_def Let_def)
qed

lemma store_tweets_batch_unique:
  assumes "store_tweets_batch lib now db uid raw_tweets = Inr (n, db1)"
    and "uq_tweet_user (web_tweets db)"
  shows "uq_tweet_user (web_tweets db1)"
proof -
  from store_tweets_batch_Inr [OF assms(1)] obtain added where
    "db1 = db\<lparr> web_tweets := web_tweets db @ added \<rparr>" "length added = n"
    "n \<noteq> 0 \<longrightarrow> uq_tweet_user (web_tweets db @ added)"
    by blast
  with assms(2) show ?thesis by (cases "n = 0") auto
qed

lemma added_keys:
  "map tweet_key (insert_loop lib now uid ex k raw_tweets)
     = map (\<lambda>i. (i, uid)) (filter (\<lambda>i. i \<notin> ex) (List.map_filter truthy_id raw_tweets))"
  by (induction raw_tweets arbitrary: k)
     (auto simp: tweet_key_def split: option.splits)

lemma store_tweets_batch_accepts:
  assumes "uq_tweet_user (web_tweets db)" and "distinct (List.map_filter truthy_id raw_tweets)"
  shows "\<exists>n db1. store_tweets_batch lib now db uid raw_tweets = Inr (n, db1)"
proof -
  let ?ids = "List.map_filter truthy_id raw_tweets"
  let ?ex = "set (map tweet_id (filter (\<lambda>r. tweet_id r \<in> set ?ids \<and> user_id r = uid) (web_tweets db)))"
  let ?added = "insert_loop lib now uid ?ex 0 raw_tweets"
  have inj: "inj_on (\<lambda>i. (i, uid)) A" for A :: "string set" by (simp add: inj_on_def)
  have d: "distinct (map tweet_key ?added)"
    unfolding added_keys using assms(2) by (simp add: distinct_map inj)
  have disj: "set (map tweet_key (web_tweets db)) \<inter> set (map tweet_key ?added) = {}"
  proof (rule ccontr)
    assume "set (map tweet_key (web_tweets db)) \<inter> set (map tweet_key ?added) \<noteq> {}"
    then obtain k where k: "k \<in> set (map tweet_key (web_tweets db))"
        "k \<in> set (map tweet_key ?added)" by blast
    from k(1) obtain r where r: "r \<in> set (web_tweets db)" "tweet_key r = k" by auto
    from k(2) obtain i where i: "k = (i, uid)" "i \<in> set ?ids" "i \<notin> ?ex"
      unfolding added_keys by auto
    from r i(1) have "tweet_id r = i" "user_id r = uid" by (simp_all add: tweet_key_def)
    with r(1) i(2) have "i \<in> ?ex" by force
    with i(3) show False by simp
  qed
  have "uq_tweet_user (web_tweets db @ ?added)"
    using assms(1) d disj by (simp add: uq_tweet_user_def)
  then show ?thesis by (simp add: store_tweets_batch_def Let_def)
qed

text \<open>
  C2 (amended). Ingestion is idempotent on every batch its first call accepts: if the stored
  pairs \<open>(tweet_id, user_id)\<close> are pairwise distinct and \<open>_store_tweets_batch\<close> returns, then a
  second call with the same batch returns \<open>new_count = 0\<close>, leaves the store as it is, and the
  stored pairs are still pairwise distinct. A batch in which no id occurs twice is always
  accepted.
\<close>

theorem store_tweets_batch_idempotent:
  "(uq_tweet_user (web_tweets db) \<and> store_tweets_batch lib now db uid batch = Inr (n, db1)
      \<longrightarrow> store_tweets_batch lib later db1 uid batch = Inr (0, db1)
          \<and> uq_tweet_user (web_tweets db1))
   \<and> (uq_tweet_user (web_tweets db) \<and> distinct (List.map_filter truthy_id batch)
      \<longrightarrow> (\<exists>n db1. store_tweets_batch lib now db uid batch = Inr (n, db1)))"
proof (intro conjI impI)
  assume h: "uq_tweet_user (web_tweets db) \<and> store_tweets_batch lib now db uid batch = Inr (n, db1)"
  then show "store_tweets_batch lib later db1 uid batch = Inr (0, db1)"
    using store_tweets_batch_again by blast
  from h show "uq_tweet_user (web_tweets db1)"
    using store_tweets_batch_unique by blast
next
  assume "uq_tweet_user (web_tweets db) \<and> distinct (List.map_filter truthy_id batch)"
  then show "\<exists>n db1. store_tweets_batch lib now db uid batch = Inr (n, db1)"
    using store_tweets_batch_accepts by blast
qed

lemma two_new_tweets_stored:
  "store_tweets_batch sample_lib (\<lambda>k. 100 + int k) empty_database 1
       [plain_tweet ''7'', plain_tweet ''8'']
     = Inr (2, empty_database\<lparr> web_tweets :=
          [\<lparr> tweet_id = ''7'', user_id = 1, columns = plain_tweet ''7'', scraped_at = 100 \<rparr>,
           \<lparr> tweet_id = ''8'', user_id = 1, columns = plain_tweet ''8'', scraped_at = 101 \<rparr>] \<rparr>)"
  by code_simp

theorem store_tweets_batch_idempotent_witness:
  "store_tweets_batch sample_lib (\<lambda>k. 200 + int k)
     (empty_database\<lparr> web_tweets :=
          [\<lparr> tweet_id = ''7'', user_id = 1, columns = plain_tweet ''7'', scraped_at = 100 \<rparr>,
           \<lparr> tweet_id = ''8'', user_id = 1, columns = plain_tweet ''8'', scraped_at = 101 \<rparr>] \<rparr>)
     1 [plain_tweet ''7'', plain_tweet ''8'']
   = Inr (0, empty_database\<lparr> web_tweets :=
          [\<lparr> tweet_id = ''7'', user_id = 1, columns = plain_tweet ''7'', scraped_at = 100 \<rparr>,
           \<lparr> tweet_id = ''8'', user_id = 1, columns = plain_tweet ''8'', scraped_at = 101 \<rparr>] \<rparr>)
   \<and> (\<exists>n db1. store_tweets_batch sample_lib (\<lambda>k. 100 + int k) empty_database 1
                  [plain_tweet ''7'', plain_tweet ''8''] = Inr (n, db1))"
proof -
  have u: "uq_tweet_user (web_tweets empty_database)"
    by (simp add: uq_tweet_user_def empty_database_def)
  have d: "distinct (List.map_filter truthy_id [plain_tweet ''7'', plain_tweet ''8''])"
    by code_simp
  from store_tweets_batch_idempotent
         [where db=empty_database and lib=sample_lib and now="\<lambda>k. 100 + int k" and uid=1
            and batch="[plain_tweet ''7'', plain_tweet ''8'']" and n=2 and later="\<lambda>k. 200 + int k"]
       u d two_new_tweets_stored
  show ?thesis by blast
qed

text \<open>
  C2 as stated fails on a batch that repeats an id not yet stored: both rows are added to the
  session, the commit violates \<open>uq_tweet_user\<close>, and the first call and the second one both
  raise instead of returning a count.
\<close>

theorem store_tweets_batch_repeated_id:
  "(case store_tweets_batch sample_lib (\<lambda>k. 100 + int k) empty_database 1 [plain_tweet ''7'', plain_tweet ''7''] of
      Inl e \<Rightarrow>
        store_tweets_batch sample_lib (\<lambda>k. 200 + int k) empty_database 1 [plain_tweet ''7'', plain_tweet ''7'']
    | Inr (n, db1) \<Rightarrow>
        store_tweets_batch sample_lib (\<lambda>k. 200 + int k) db1 1 [plain_tweet ''7'', plain_tweet ''7''])
   = Inl IntegrityError"
  by code_simp

text \<open>
  C5. An item whose permalinks resolve to no id is discarded whatever else it contains: the
  result is \<open>None\<close> for every value of the parts the other sub-extractions read. Every record
  the engine does return carries the id, a non-empty string of digits. Every row ingestion adds
  has a non-empty \<open>tweet_id\<close>, the id of a record of the batch.
\<close>

theorem records_require_external_id:
  "(extract_tweet_id a = None
      \<longrightarrow> parse_tweet lib
            (a\<lparr> social_context := sc, user_links := ul, tweet_text := tt, article_text := txt,
                user_name_cells := cells, time_datetime := dt, button_of := bs,
                photo_srcs := ps \<rparr>) = None)
   \<and> (parse_tweet lib a = Some tweet
      \<longrightarrow> (\<exists>i. id_str tweet = Some i \<and> isdigit i \<and> extract_tweet_id a = Some i))
   \<and> (store_tweets_batch lib now db uid raw_tweets = Inr (n, db1)
      \<longrightarrow> (\<exists>added. web_tweets db1 = web_tweets db @ added \<and> length added = n
             \<and> list_all (\<lambda>r. tweet_id r \<noteq> []
                             \<and> list_ex (\<lambda>t. id_str t = Some (tweet_id r)) raw_tweets) added))"
proof (intro conjI impI)
  assume "extract_tweet_id a = None"
  then show "parse_tweet lib
            (a\<lparr> social_context := sc, user_links := ul, tweet_text := tt, article_text := txt,
                user_name_cells := cells, time_datetime := dt, button_of := bs,
                photo_srcs := ps \<rparr>) = None"
    by (simp add: parse_tweet_def extract_tweet_id_permalinks_only)
next
  assume p: "parse_tweet lib a = Some tweet"
  then obtain i where i: "extract_tweet_id a = Some i"
    by (cases "extract_tweet_id a") (simp_all add: parse_tweet_def)
  with parse_tweet_id [OF p] extract_tweet_id_digits [OF i]
  show "\<exists>i. id_str tweet = Some i \<and> isdigit i \<and> extract_tweet_id a = Some i" by simp
next
  assume "store_tweets_batch lib now db uid raw_tweets = Inr (n, db1)"
  from store_tweets_batch_Inr [OF this] obtain added where
    a: "db1 = db\<lparr> web_tweets := web_tweets db @ added \<rparr>" "length added = n"
      "\<forall>r\<in>set added. \<exists>t\<in>set raw_tweets. truthy_id t = Some (tweet_id r) \<and> user_id r = uid"
    by blast
  have "list_all (\<lambda>r. tweet_id r \<noteq> [] \<and> list_ex (\<lambda>t. id_str t = Some (tweet_id r)) raw_tweets) added"
    unfolding list_all_iff list_ex_iff using a(3) truthy_id_Some by blast
  with a(1,2) show "\<exists>added. web_tweets db1 = web_tweets db @ added \<and> length added = n
             \<and> list_all (\<lambda>r. tweet_id r \<noteq> []
                             \<and> list_ex (\<lambda>t. id_str t = Some (tweet_id r)) raw_tweets) added"
    by (intro exI [of _ added]) simp
qed

lemma no_permalink_unresolved: "extract_tweet_id no_permalink_article = None"
  by code_simp

lemma plain_article_parsed: "parse_tweet sample_lib (plain_article ''7'') = Some (plain_tweet ''7'')"
  by code_simp

lemma id_less_batch_stored:
  "store_tweets_batch sample_lib (\<lambda>k. 100 + int k) empty_database 1 [initial_tweet_data, plain_tweet ''7'']
     = Inr (1, empty_database\<lparr> web_tweets :=
          [\<lparr> tweet_id = ''7'', user_id = 1, columns = plain_tweet ''7'', scraped_at = 100 \<rparr>] \<rparr>)"
  by code_simp

theorem records_require_external_id_witness:
  "parse_tweet sample_lib no_permalink_article = None
   \<and> (\<exists>i. id_str (plain_tweet ''7'') = Some i \<and> isdigit i)
   \<and> (\<exists>added. web_tweets (empty_database\<lparr> web_tweets :=
          [\<lparr> tweet_id = ''7'', user_id = 1, columns = plain_tweet ''7'', scraped_at = 100 \<rparr>] \<rparr>)
            = web_tweets empty_database @ added
          \<and> length added = 1 \<and> list_all (\<lambda>r. tweet_id r \<noteq> []) added)"
proof -
  have "parse_tweet sample_lib
          (no_permalink_article\<lparr> social_context := social_context no_permalink_article,
             user_links := user_links no_permalink_article,
             tweet_text := tweet_text no_permalink_article,
             article_text := article_text no_permalink_article,
             user_name_cells := user_name_cells no_permalink_article,
             time_datetime := time_datetime no_permalink_article,
             button_of := button_of no_permalink_article,
             photo_srcs := photo_srcs no_permalink_article \<rparr>) = None"
    using records_require_external_id [where a=no_permalink_article] no_permalink_unresolved by blast
  then have a: "parse_tweet sample_lib no_permalink_article = None" by simp
  have b: "\<exists>i. id_str (plain_tweet ''7'') = Some i \<and> isdigit i"
    using records_require_external_id [where lib=sample_lib and a="plain_article ''7''" and tweet="plain_tweet ''7''"]
      plain_article_parsed by blast
  have c: "\<exists>added. web_tweets (empty_database\<lparr> web_tweets :=
          [\<lparr> tweet_id = ''7'', user_id = 1, columns = plain_tweet ''7'', scraped_at = 100 \<rparr>] \<rparr>)
            = web_tweets empty_database @ added
          \<and> length added = 1 \<and> list_all (\<lambda>r. tweet_id r \<noteq> []) added"
  proof -
    from records_require_external_id [where lib=sample_lib and now="\<lambda>k. 100 + int k" and db=empty_database
           and uid=1 and raw_tweets="[initial_tweet_data, plain_tweet ''7'']" and n=1]
         id_less_batch_stored
    obtain added where "web_tweets (empty_database\<lparr> web_tweets :=
          [\<lparr> tweet_id = ''7'', user_id = 1, columns = plain_tweet ''7'', scraped_at = 100 \<rparr>] \<rparr>)
            = web_tweets empty_database @ added" "length added = 1"
       "list_all (\<lambda>r. tweet_id r \<noteq> []
                  \<and> list_ex (\<lambda>t. id_str t = Some (tweet_id r)) [initial_tweet_data, plain_tweet ''7'']) added"
      by blast
    then show ?thesis by (intro exI [of _ added]) (simp add: list_all_iff)
  qed
  from a b c show ?thesis by blast
qed

subsection \<open>Retention trimming\<close>

lemma filter_less_nth_sorted:
  fixes xs :: "int list"
  assumes "sorted xs" and "distinct xs" and "j < length xs"
  shows "filter (\<lambda>t. t < xs ! j) xs = take j xs"
proof -
  have s: "sorted_wrt (<) xs" using assms(1,2) by (simp add: strict_sorted_iff)
  have split: "xs = take j xs @ xs ! j # drop (Suc j) xs"
    using assms(3) by (rule id_take_nth_drop)
  from s have s2: "sorted_wrt (<) (take j xs @ xs ! j # drop (Suc j) xs)"
    using split by simp
  then have before: "\<forall>x\<in>set (take j xs). x < xs ! j"
    and after: "\<forall>y\<in>set (drop (Suc j) xs). xs ! j < y"
    by (auto simp: sorted_wrt_append)
  have "filter (\<lambda>t. t < xs ! j) (take j xs @ xs ! j # drop (Suc j) xs) = take j xs"
    using before after by (auto simp: filter_empty_conv)
  with split show ?thesis by simp
qed

lemma length_filter_sort:
  fixes ts :: "int list"
  shows "length (filter P ts) = length (filter P (sort ts))"
  by (simp add: filter_sort)

lemma cleanup_old_tweets_distinct:
  assumes k: "1 \<le> keep_count" "keep_count < length rows"
    and d: "distinct (map row_scraped_at rows)"
  shows "cleanup_old_tweets keep_count rows
           = (length rows - keep_count,
              filter (\<lambda>r. \<not> row_scraped_at r
                             < sort (map row_scraped_at rows) ! (length rows - keep_count)) rows)"
    and "length (filter (\<lambda>r. \<not> row_scraped_at r
                             < sort (map row_scraped_at rows) ! (length rows - keep_count)) rows)
           = keep_count"
proof -
  let ?ts = "map row_scraped_at rows"
  let ?xs = "sort ?ts"
  let ?j = "length rows - keep_count"
  let ?c = "?xs ! ?j"
  have len: "length ?xs = length rows" by simp
  have j: "?j < length ?xs" using k by simp
  have nth: "nth_row (rev ?xs) (keep_count - 1) = Some ?c"
  proof -
    have "rev ?xs ! (keep_count - 1) = ?xs ! (length ?xs - Suc (keep_count - 1))"
      using k by (intro rev_nth) simp
    also have "length ?xs - Suc (keep_count - 1) = ?j" using k by simp
    finally show ?thesis using k by (simp add: nth_row_def)
  qed
  have "length (filter (\<lambda>r. row_scraped_at r < ?c) rows) = length (filter (\<lambda>t. t < ?c) ?ts)"
    by (simp add: filter_map comp_def)
  also have "\<dots> = length (filter (\<lambda>t. t < ?c) ?xs)" by (rule length_filter_sort)
  also have "filter (\<lambda>t. t < ?c) ?xs = take ?j ?xs"
    using d j by (intro filter_less_nth_sorted) simp_all
  also have "length (take ?j ?xs) = ?j" using j by simp
  finally have del: "length (filter (\<lambda>r. row_scraped_at r < ?c) rows) = ?j" .
  from nth del k show "cleanup_old_tweets keep_count rows
           = (?j, filter (\<lambda>r. \<not> row_scraped_at r < ?c) rows)"
    by (simp add: cleanup_old_tweets_def Let_def)
  have "length (filter (\<lambda>r. row_scraped_at r < ?c) rows)
          + length (filter (\<lambda>r. \<not> row_scraped_at r < ?c) rows) = length rows"
    by (rule sum_length_filter_compl)
  with del k show "length (filter (\<lambda>r. \<not> row_scraped_at r < ?c) rows) = keep_count"
    by simp
qed


text \<open>
  When the total is at most \<open>keep_count\<close>, trimming deletes nothing and returns 0. When
  \<open>keep_count\<close> is at least 1, more rows are stored and their storage times are pairwise
  distinct, it returns \<open>total - keep_count\<close> and leaves exactly \<open>keep_count\<close> rows: those stored
  at or after the time of the \<open>keep_count\<close>-th most recent, every deleted row being older than
  every row kept. Only under distinct storage times does the function keep what its docstring
  (\<open>Number of most recent tweets to keep\<close>) and its log line announce.
\<close>

lemma cleanup_old_tweets_distinct_times:
  "(length rows \<le> keep_count \<longrightarrow> cleanup_old_tweets keep_count rows = (0, rows))
   \<and> (1 \<le> keep_count \<and> keep_count < length rows \<and> distinct (map row_scraped_at rows)
      \<longrightarrow> (\<exists>cutoff kept.
             cleanup_old_tweets keep_count rows = (length rows - keep_count, kept)
             \<and> length kept = keep_count
             \<and> kept = filter (\<lambda>r. cutoff \<le> row_scraped_at r) rows
             \<and> (\<forall>r\<in>set rows. r \<in> set kept
                    \<or> (\<forall>q\<in>set kept. row_scraped_at r < row_scraped_at q))))"
proof (intro conjI impI)
  assume "length rows \<le> keep_count"
  then show "cleanup_old_tweets keep_count rows = (0, rows)"
    by (simp add: cleanup_old_tweets_def)
next
  assume h: "1 \<le> keep_count \<and> keep_count < length rows \<and> distinct (map row_scraped_at rows)"
  let ?c = "sort (map row_scraped_at rows) ! (length rows - keep_count)"
  let ?kept = "filter (\<lambda>r. ?c \<le> row_scraped_at r) rows"
  have eq: "?kept = filter (\<lambda>r. \<not> row_scraped_at r < ?c) rows"
    by (simp add: not_less)
  from h cleanup_old_tweets_distinct [of keep_count rows]
  have "cleanup_old_tweets keep_count rows = (length rows - keep_count, ?kept)"
    and "length ?kept = keep_count"
    unfolding eq by simp_all
  moreover have "\<forall>r\<in>set rows. r \<in> set ?kept
                    \<or> (\<forall>q\<in>set ?kept. row_scraped_at r < row_scraped_at q)"
    by auto
  ultimately show "\<exists>cutoff kept.
             cleanup_old_tweets keep_count rows = (length rows - keep_count, kept)
             \<and> length kept = keep_count
             \<and> kept = filter (\<lambda>r. cutoff \<le> row_scraped_at r) rows
             \<and> (\<forall>r\<in>set rows. r \<in> set kept
                    \<or> (\<forall>q\<in>set kept. row_scraped_at r < row_scraped_at q))"
    by blast
qed

lemma length_sample_rows: "length (sample_rows stamp count) = count"
  by (simp add: sample_rows_def)

lemma stamps_sample_rows: "map row_scraped_at (sample_rows stamp count) = map stamp [0..<count]"
  by (simp add: sample_rows_def comp_def)

lemma cleanup_old_tweets_distinct_times_150:
  "cleanup_old_tweets 3 (sample_rows int 3) = (0, sample_rows int 3)
   \<and> (\<exists>kept. cleanup_old_tweets 100 (sample_rows int 150) = (50, kept) \<and> length kept = 100)"
proof -
  have d: "distinct (map row_scraped_at (sample_rows int 150))"
    by (simp add: stamps_sample_rows distinct_map)
  have a: "cleanup_old_tweets 3 (sample_rows int 3) = (0, sample_rows int 3)"
    using cleanup_old_tweets_distinct_times [where rows="sample_rows int 3" and keep_count=3]
    by (simp add: length_sample_rows)
  have b: "\<exists>kept. cleanup_old_tweets 100 (sample_rows int 150) = (50, kept) \<and> length kept = 100"
    using cleanup_old_tweets_distinct_times [where rows="sample_rows int 150" and keep_count=100] d
    by (auto simp: length_sample_rows)
  from a b show ?thesis by simp
qed


subsection \<open>Summarizer failure in the pipeline\<close>

lemma log_scrape_run_Inr:
  "log_scrape_run env k db uid started found new source run_status = Inr db' \<Longrightarrow>
   status_fits env run_status
   \<and> db' = db\<lparr> scrape_runs := scrape_runs db @
                 [\<lparr> run_user_id = uid, started_at = started,
                    finished_at = Some (now_utc env (RunFinished k)),
                    tweets_found = found, tweets_new = new, run_feed_source = source,
                    status = run_status \<rparr>] \<rparr>"
  by (auto simp: log_scrape_run_def split: if_splits)

lemma log_scrape_run_fits:
  "status_fits env run_status \<Longrightarrow>
   log_scrape_run env k db uid started found new source run_status
     = Inr (db\<lparr> scrape_runs := scrape_runs db @
                 [\<lparr> run_user_id = uid, started_at = started,
                    finished_at = Some (now_utc env (RunFinished k)),
                    tweets_found = found, tweets_new = new, run_feed_source = source,
                    status = run_status \<rparr>] \<rparr>)"
  by (simp add: log_scrape_run_def)

lemma log_scrape_run_too_long:
  "\<not> status_fits env run_status \<Longrightarrow>
   log_scrape_run env k db uid started found new source run_status = Inl DataError"
  by (simp add: log_scrape_run_def)

lemma pipeline_failed_None:
  "fst (pipeline_failed env k db uid started source e) = None
   \<and> briefings (snd (pipeline_failed env k db uid started source e)) = briefings db
   \<and> web_tweets (snd (pipeline_failed env k db uid started source e)) = web_tweets db"
  by (auto simp: pipeline_failed_def log_scrape_run_def split: sum.splits if_splits)

lemma pipeline_failed_too_long:
  "\<not> status_fits env (''error: '' @ e) \<Longrightarrow>
   pipeline_failed env k db uid started source e = (None, db)"
  by (simp add: pipeline_failed_def log_scrape_run_too_long)

lemma store_tweets_batch_briefings:
  "store_tweets_batch lib now db uid raw_tweets = Inr (n, stored) \<Longrightarrow>
   briefings stored = briefings db \<and> scrape_runs stored = scrape_runs db"
  by (auto simp: store_tweets_batch_def Let_def split: if_splits)

lemma summarize_and_store_generation_error:
  assumes "recent_tweets env db uid settings \<noteq> []"
    and "generate_summary env (map tweet_dict (recent_tweets env db uid settings)) settings
           = SummaryGenerationError reason"
  shows "summarize_and_store env db uid settings started found new_count
         = (case log_scrape_run env 1 db uid started found new_count (feed_source settings)
                  (''summary_error: '' @ reason) of
              Inr db' \<Rightarrow> (None, db')
            | Inl err \<Rightarrow>
                pipeline_failed env 2 db uid started (feed_source settings)
                  (db_error_text env err))"
  using assms by (simp add: summarize_and_store_def Let_def)

lemma summarize_and_store_failed:
  assumes "recent_tweets env db uid settings \<noteq> []"
    and "generate_summary env (map tweet_dict (recent_tweets env db uid settings)) settings
           = SummaryFailed reason"
  shows "summarize_and_store env db uid settings started found new_count
         = pipeline_failed env 1 db uid started (feed_source settings) reason"
  using assms by (simp add: summarize_and_store_def Let_def)

lemma reaches_summarizer_run:
  assumes "reaches_summarizer env lib db uid settings raw_tweets new_count logged"
  shows "run_user_pipeline env lib db uid
         = summarize_and_store env logged uid settings (now_utc env StartedAt)
             (length raw_tweets) new_count"
    and "briefings logged = briefings db"
    and "scrape_runs logged
         = scrape_runs db @
             [\<lparr> run_user_id = uid, started_at = now_utc env StartedAt,
                finished_at = Some (now_utc env (RunFinished 0)),
                tweets_found = length raw_tweets, tweets_new = new_count,
                run_feed_source = feed_source settings, status = ''completed'' \<rparr>]"
    and "recent_tweets env logged uid settings \<noteq> []"
proof -
  from assms have a: "map_of (settings_rows db) uid = Some settings"
    and b: "fetch_tweets env db uid settings (now_utc env StartedAt) = Inr raw_tweets"
    and c: "raw_tweets \<noteq> []"
    and d: "case store_tweets_batch lib (\<lambda>k. now_utc env (RowDefault k)) db uid raw_tweets of
              Inl e \<Rightarrow> False
            | Inr (n, stored) \<Rightarrow>
                n = new_count
                \<and> log_scrape_run env 0 stored uid (now_utc env StartedAt) (length raw_tweets)
                      new_count (feed_source settings) ''completed'' = Inr logged"
    and f: "recent_tweets env logged uid settings \<noteq> []"
    unfolding reaches_summarizer_def by blast+
  from d obtain stored
    where s: "store_tweets_batch lib (\<lambda>k. now_utc env (RowDefault k)) db uid raw_tweets
              = Inr (new_count, stored)"
      and l: "log_scrape_run env 0 stored uid (now_utc env StartedAt) (length raw_tweets)
                new_count (feed_source settings) ''completed'' = Inr logged"
    by (auto split: sum.splits prod.splits)
  show "run_user_pipeline env lib db uid
         = summarize_and_store env logged uid settings (now_utc env StartedAt)
             (length raw_tweets) new_count"
    unfolding run_user_pipeline_def using a b c s l by (simp add: Let_def)
  from store_tweets_batch_briefings [OF s] log_scrape_run_Inr [OF l]
  show "briefings logged = briefings db"
    and "scrape_runs logged
         = scrape_runs db @
             [\<lparr> run_user_id = uid, started_at = now_utc env StartedAt,
                finished_at = Some (now_utc env (RunFinished 0)),
                tweets_found = length raw_tweets, tweets_new = new_count,
                run_feed_source = feed_source settings, status = ''completed'' \<rparr>]"
    by simp_all
  from f show "recent_tweets env logged uid settings \<noteq> []" .
qed

lemma status_fits_short: "length run_status \<le> 128 \<Longrightarrow> status_fits env run_status"
  by (simp add: status_fits_def)

text \<open>
  What the run does with a \<open>SummaryGenerationError\<close>, whatever the length of its reason: it
  returns \<open>None\<close> and creates no briefing; when the status text fits the column, the record
  \<open>summary_error: <reason>\<close> is added to the \<open>completed\<close> one; when it does not, the insert
  raises, the general handler tries to record the text of that exception, and if this does
  not fit either the run leaves nothing but its \<open>completed\<close> record.
\<close>

lemma run_user_pipeline_generation_error:
  assumes r: "reaches_summarizer env lib db uid settings raw_tweets new_count logged"
    and g: "generate_summary env (map tweet_dict (recent_tweets env logged uid settings)) settings
              = SummaryGenerationError reason"
  shows "fst (run_user_pipeline env lib db uid) = None"
    and "briefings (snd (run_user_pipeline env lib db uid)) = briefings db"
    and "status_fits env (''summary_error: '' @ reason) \<Longrightarrow>
         snd (run_user_pipeline env lib db uid)
         = logged\<lparr> scrape_runs := scrape_runs logged @
                     [\<lparr> run_user_id = uid, started_at = now_utc env StartedAt,
                        finished_at = Some (now_utc env (RunFinished 1)),
                        tweets_found = length raw_tweets, tweets_new = new_count,
                        run_feed_source = feed_source settings,
                        status = ''summary_error: '' @ reason \<rparr>] \<rparr>"
    and "\<not> status_fits env (''summary_error: '' @ reason) \<Longrightarrow>
         \<not> status_fits env (''error: '' @ db_error_text env DataError) \<Longrightarrow>
         snd (run_user_pipeline env lib db uid) = logged"
proof -
  note run = reaches_summarizer_run [OF r]
  let ?log = "log_scrape_run env 1 logged uid (now_utc env StartedAt) (length raw_tweets)
                new_count (feed_source settings) (''summary_error: '' @ reason)"
  have s: "run_user_pipeline env lib db uid
           = (case ?log of
                Inr db' \<Rightarrow> (None, db')
              | Inl err \<Rightarrow>
                  pipeline_failed env 2 logged uid (now_utc env StartedAt) (feed_source settings)
                    (db_error_text env err))"
    unfolding run(1) by (rule summarize_and_store_generation_error [OF run(4) g])
  show "fst (run_user_pipeline env lib db uid) = None"
    unfolding s by (cases ?log) (simp_all add: pipeline_failed_None)
  show "briefings (snd (run_user_pipeline env lib db uid)) = briefings db"
  proof (cases ?log)
    case (Inl err)
    then show ?thesis unfolding s by (simp add: pipeline_failed_None run(2))
  next
    case (Inr db')
    with log_scrape_run_Inr [OF Inr] show ?thesis unfolding s by (simp add: run(2))
  qed
  show "snd (run_user_pipeline env lib db uid)
         = logged\<lparr> scrape_runs := scrape_runs logged @
                     [\<lparr> run_user_id = uid, started_at = now_utc env StartedAt,
                        finished_at = Some (now_utc env (RunFinished 1)),
                        tweets_found = length raw_tweets, tweets_new = new_count,
                        run_feed_source = feed_source settings,
                        status = ''summary_error: '' @ reason \<rparr>] \<rparr>"
    if "status_fits env (''summary_error: '' @ reason)"
    unfolding s using that by (simp add: log_scrape_run_fits)
  show "snd (run_user_pipeline env lib db uid) = logged"
    if "\<not> status_fits env (''summary_error: '' @ reason)"
      and "\<not> status_fits env (''error: '' @ db_error_text env DataError)"
    unfolding s using that by (simp add: log_scrape_run_too_long pipeline_failed_too_long)
qed

lemma run_user_pipeline_summary_failed:
  assumes r: "reaches_summarizer env lib db uid settings raw_tweets new_count logged"
    and g: "generate_summary env (map tweet_dict (recent_tweets env logged uid settings)) settings
              = SummaryFailed reason"
  shows "fst (run_user_pipeline env lib db uid) = None"
    and "briefings (snd (run_user_pipeline env lib db uid)) = briefings db"
proof -
  note run = reaches_summarizer_run [OF r]
  have s: "run_user_pipeline env lib db uid
           = pipeline_failed env 1 logged uid (now_utc env StartedAt) (feed_source settings) reason"
    unfolding run(1) by (rule summarize_and_store_failed [OF run(4) g])
  show "fst (run_user_pipeline env lib db uid) = None"
    and "briefings (snd (run_user_pipeline env lib db uid)) = briefings db"
    unfolding s by (simp_all add: pipeline_failed_None run(2))
qed

text \<open>
  C8 (amended). Whenever the summarizer raises during a pipeline run, which it can only do
  in a run that has reached it (settings found, a non-empty batch fetched and stored, the
  \<open>completed\<close> record written, recent tweets present), the run returns \<open>None\<close> instead of
  propagating the exception and creates no briefing. When the exception is
  \<open>SummaryGenerationError\<close> and the status text \<open>summary_error: <reason>\<close> has at most 128
  characters, the width of the status column, the run adds, after its \<open>completed\<close> record,
  one run record with that status text, which has no \<open>failed:\<close> prefix, and the found and
  new counts of the batch, and changes nothing else.
\<close>

theorem run_user_pipeline_summary_error:
  "(reaches_summarizer env lib db uid settings raw_tweets new_count logged
      \<and> generate_summary env (map tweet_dict (recent_tweets env logged uid settings)) settings
            = SummaryGenerationError reason
     \<longrightarrow> fst (run_user_pipeline env lib db uid) = None
         \<and> briefings (snd (run_user_pipeline env lib db uid)) = briefings db
         \<and> (length (''summary_error: '' @ reason) \<le> 128
             \<longrightarrow> scrape_runs logged
                   = scrape_runs db @
                       [\<lparr> run_user_id = uid, started_at = now_utc env StartedAt,
                          finished_at = Some (now_utc env (RunFinished 0)),
                          tweets_found = length raw_tweets, tweets_new = new_count,
                          run_feed_source = feed_source settings, status = ''completed'' \<rparr>]
                 \<and> snd (run_user_pipeline env lib db uid)
                   = logged\<lparr> scrape_runs := scrape_runs logged @
                       [\<lparr> run_user_id = uid, started_at = now_utc env StartedAt,
                          finished_at = Some (now_utc env (RunFinished 1)),
                          tweets_found = length raw_tweets, tweets_new = new_count,
                          run_feed_source = feed_source settings,
                          status = ''summary_error: '' @ reason \<rparr>] \<rparr>))
   \<and> (reaches_summarizer env lib db uid settings raw_tweets new_count logged
      \<and> generate_summary env (map tweet_dict (recent_tweets env logged uid settings)) settings
            = SummaryFailed reason
     \<longrightarrow> fst (run_user_pipeline env lib db uid) = None
         \<and> briefings (snd (run_user_pipeline env lib db uid)) = briefings db)"
proof (intro conjI impI)
  assume h: "reaches_summarizer env lib db uid settings raw_tweets new_count logged
      \<and> generate_summary env (map tweet_dict (recent_tweets env logged uid settings)) settings
            = SummaryGenerationError reason"
  then have r: "reaches_summarizer env lib db uid settings raw_tweets new_count logged"
    and g: "generate_summary env (map tweet_dict (recent_tweets env logged uid settings)) settings
            = SummaryGenerationError reason"
    by blast+
  note e = run_user_pipeline_generation_error [OF r g]
  from e(1) show "fst (run_user_pipeline env lib db uid) = None" .
  from e(2) show "briefings (snd (run_user_pipeline env lib db uid)) = briefings db" .
  from reaches_summarizer_run(3) [OF r]
  show "scrape_runs logged
        = scrape_runs db @
            [\<lparr> run_user_id = uid, started_at = now_utc env StartedAt,
               finished_at = Some (now_utc env (RunFinished 0)),
               tweets_found = length raw_tweets, tweets_new = new_count,
               run_feed_source = feed_source settings, status = ''completed'' \<rparr>]" .
  assume "length (''summary_error: '' @ reason) \<le> 128"
  then have "status_fits env (''summary_error: '' @ reason)" by (rule status_fits_short)
  from e(3) [OF this]
  show "snd (run_user_pipeline env lib db uid)
        = logged\<lparr> scrape_runs := scrape_runs logged @
            [\<lparr> run_user_id = uid, started_at = now_utc env StartedAt,
               finished_at = Some (now_utc env (RunFinished 1)),
               tweets_found = length raw_tweets, tweets_new = new_count,
               run_feed_source = feed_source settings,
               status = ''summary_error: '' @ reason \<rparr>] \<rparr>" .
next
  assume h: "reaches_summarizer env lib db uid settings raw_tweets new_count logged
      \<and> generate_summary env (map tweet_dict (recent_tweets env logged uid settings)) settings
            = SummaryFailed reason"
  then have r: "reaches_summarizer env lib db uid settings raw_tweets new_count logged"
    and g: "generate_summary env (map tweet_dict (recent_tweets env logged uid settings)) settings
            = SummaryFailed reason"
    by blast+
  from run_user_pipeline_summary_failed [OF r g]
  show "fst (run_user_pipeline env lib db uid) = None"
    and "briefings (snd (run_user_pipeline env lib db uid)) = briefings db" .
qed

lemma failing_run_reaches:
  "reaches_summarizer failing_summarizer_env sample_lib one_user_database 1 sample_settings
     [plain_tweet ''7'', plain_tweet ''8''] 2 logged_database"
  by code_simp

lemma crashing_run_reaches:
  "reaches_summarizer crashing_summarizer_env sample_lib one_user_database 1 sample_settings
     [plain_tweet ''7'', plain_tweet ''8''] 2 logged_database"
  by code_simp

lemma long_reason_run_reaches:
  "reaches_summarizer long_reason_env sample_lib one_user_database 1 sample_settings
     [plain_tweet ''7'', plain_tweet ''8''] 2 logged_database"
  by code_simp

theorem run_user_pipeline_summary_error_witness:
  "fst (run_user_pipeline failing_summarizer_env sample_lib one_user_database 1) = None
   \<and> briefings (snd (run_user_pipeline failing_summarizer_env sample_lib one_user_database 1)) = []
   \<and> map status
        (scrape_runs (snd (run_user_pipeline failing_summarizer_env sample_lib one_user_database 1)))
      = [''completed'', ''summary_error: LLM error: HTTP 500'']
   \<and> map finished_at
        (scrape_runs (snd (run_user_pipeline failing_summarizer_env sample_lib one_user_database 1)))
      = [Some 1100, Some 1101]
   \<and> map scraped_at
        (web_tweets (snd (run_user_pipeline failing_summarizer_env sample_lib one_user_database 1)))
      = [1001, 1002]
   \<and> fst (run_user_pipeline crashing_summarizer_env sample_lib one_user_database 1) = None
   \<and> briefings (snd (run_user_pipeline crashing_summarizer_env sample_lib one_user_database 1)) = []"
proof -
  have g: "generate_summary failing_summarizer_env
             (map tweet_dict
                (recent_tweets failing_summarizer_env logged_database 1 sample_settings))
             sample_settings = SummaryGenerationError ''LLM error: HTTP 500''"
    by (simp add: failing_summarizer_env_def)
  have c: "generate_summary crashing_summarizer_env
             (map tweet_dict
                (recent_tweets crashing_summarizer_env logged_database 1 sample_settings))
             sample_settings = SummaryFailed ''KeyError: tweets_json''"
    by (simp add: crashing_summarizer_env_def)
  have short: "length (''summary_error: '' @ ''LLM error: HTTP 500'') \<le> 128"
    by simp
  have none: "briefings one_user_database = []"
    by (simp add: one_user_database_def empty_database_def)
  note failing = run_user_pipeline_summary_error
    [where db=one_user_database and uid=1 and settings=sample_settings
       and env=failing_summarizer_env and lib=sample_lib
       and raw_tweets="[plain_tweet ''7'', plain_tweet ''8'']"
       and new_count=2 and logged=logged_database and reason="''LLM error: HTTP 500''"]
  note crashing = run_user_pipeline_summary_error
    [where db=one_user_database and uid=1 and settings=sample_settings
       and env=crashing_summarizer_env and lib=sample_lib
       and raw_tweets="[plain_tweet ''7'', plain_tweet ''8'']"
       and new_count=2 and logged=logged_database and reason="''KeyError: tweets_json''"]
  from failing failing_run_reaches g
  have a: "fst (run_user_pipeline failing_summarizer_env sample_lib one_user_database 1) = None"
    and b: "briefings (snd (run_user_pipeline failing_summarizer_env sample_lib one_user_database 1))
            = briefings one_user_database"
    by blast+
  from failing failing_run_reaches g short
  have run: "snd (run_user_pipeline failing_summarizer_env sample_lib one_user_database 1)
      = logged_database\<lparr> scrape_runs := scrape_runs logged_database @
            [\<lparr> run_user_id = 1, started_at = now_utc failing_summarizer_env StartedAt,
               finished_at = Some (now_utc failing_summarizer_env (RunFinished 1)),
               tweets_found = length [plain_tweet ''7'', plain_tweet ''8''], tweets_new = 2,
               run_feed_source = feed_source sample_settings,
               status = ''summary_error: '' @ ''LLM error: HTTP 500'' \<rparr>] \<rparr>"
    by blast
  have s: "map status
        (scrape_runs (snd (run_user_pipeline failing_summarizer_env sample_lib one_user_database 1)))
      = [''completed'', ''summary_error: LLM error: HTTP 500'']"
    unfolding run by (simp add: logged_database_def)
  have t: "map finished_at
        (scrape_runs (snd (run_user_pipeline failing_summarizer_env sample_lib one_user_database 1)))
      = [Some 1100, Some 1101]"
    unfolding run by (simp add: logged_database_def failing_summarizer_env_def sample_clock_def)
  have w: "map scraped_at
        (web_tweets (snd (run_user_pipeline failing_summarizer_env sample_lib one_user_database 1)))
      = [1001, 1002]"
    unfolding run by (simp add: logged_database_def)
  from crashing crashing_run_reaches c
  have d: "fst (run_user_pipeline crashing_summarizer_env sample_lib one_user_database 1) = None"
    and e: "briefings (snd (run_user_pipeline crashing_summarizer_env sample_lib one_user_database 1))
            = briefings one_user_database"
    by blast+
  from a b s t w d e none show ?thesis by simp
qed

text \<open>
  C8 as stated names the status \<open>failed: summary_error: <reason>\<close> and lets every
  summarizer error reach the run record. The status the code writes has no \<open>failed:\<close>
  prefix: with the LLM endpoint answering HTTP 500 the run records are \<open>completed\<close> and
  \<open>summary_error: LLM error: HTTP 500\<close>. And the code hands the status to a column of 128
  characters as it is: on PostgreSQL, with a reason of 149 characters, the insert of the
  \<open>summary_error\<close> record raises, so does the insert of the \<open>error:\<close> record that the general
  handler tries with the text of that exception, and the run leaves its \<open>completed\<close> record
  alone.
\<close>

theorem run_user_pipeline_status_text:
  "map status
     (scrape_runs (snd (run_user_pipeline failing_summarizer_env sample_lib one_user_database 1)))
     = [''completed'', ''summary_error: LLM error: HTTP 500'']
   \<and> ''failed: summary_error: LLM error: HTTP 500''
       \<notin> set (map status
                (scrape_runs
                  (snd (run_user_pipeline failing_summarizer_env sample_lib one_user_database 1))))
   \<and> length long_reason = 149
   \<and> generate_summary long_reason_env
        (map tweet_dict (recent_tweets long_reason_env logged_database 1 sample_settings))
        sample_settings = SummaryGenerationError long_reason
   \<and> run_user_pipeline long_reason_env sample_lib one_user_database 1 = (None, logged_database)
   \<and> map status (scrape_runs logged_database) = [''completed'']"
  by code_simp

subsection \<open>Record shape of the two feed providers\<close>

text \<open>
  C9 (amended). Both providers build the same record, and the live-API record always has its
  id. Their \<open>media_urls\<close> differ: the live-API provider yields null when no URL entity
  contains one of the media markers, and otherwise the non-empty list of the expanded URLs
  that contain one, unvalidated; the scraper always yields a list, each URL of which passed
  \<open>validate_url\<close>.
\<close>

theorem transform_tweet_media_urls:
  "media_urls (transform_tweet users_map ref_tweets_map tweet)
     = (if api_media_urls tweet = [] then None else Some (api_media_urls tweet))
   \<and> list_all (\<lambda>u. list_ex (contains u) media_markers) (api_media_urls tweet)
   \<and> id_str (transform_tweet users_map ref_tweets_map tweet) = Some (api_id tweet)
   \<and> (parse_tweet lib a = Some scraped
      \<longrightarrow> media_urls scraped = Some (extract_media_urls lib a)
          \<and> list_all (validate_url lib) (extract_media_urls lib a))"
proof (intro conjI impI)
  show "media_urls (transform_tweet users_map ref_tweets_map tweet)
     = (if api_media_urls tweet = [] then None else Some (api_media_urls tweet))"
    by (simp add: transform_tweet_def Let_def split: prod.splits)
  show "list_all (\<lambda>u. list_ex (contains u) media_markers) (api_media_urls tweet)"
    by (simp add: api_media_urls_def list_all_iff)
  show "id_str (transform_tweet users_map ref_tweets_map tweet) = Some (api_id tweet)"
    by (simp add: transform_tweet_def Let_def split: prod.splits)
next
  assume "parse_tweet lib a = Some scraped"
  then show "media_urls scraped = Some (extract_media_urls lib a)"
    by (auto simp: parse_tweet_def Let_def split: option.splits if_splits)
next
  show "list_all (validate_url lib) (extract_media_urls lib a)"
    by (auto simp: extract_media_urls_def list_all_iff set_map_filter split: option.splits if_splits)
qed

lemma photo_article_parsed:
  "parse_tweet https_lib photo_article
     = Some ((plain_tweet ''7'')\<lparr> media_urls := Some [''https://pbs.twimg.com/media/a.jpg''] \<rparr>)"
  by code_simp

theorem transform_tweet_media_urls_witness:
  "Some [''https://pbs.twimg.com/media/a.jpg''] = Some (extract_media_urls https_lib photo_article)
   \<and> list_all (validate_url https_lib) (extract_media_urls https_lib photo_article)"
proof -
  from transform_tweet_media_urls
         [where lib=https_lib and a=photo_article
            and scraped="(plain_tweet ''7'')\<lparr> media_urls := Some [''https://pbs.twimg.com/media/a.jpg''] \<rparr>"]
       photo_article_parsed
  have "media_urls ((plain_tweet ''7'')\<lparr> media_urls := Some [''https://pbs.twimg.com/media/a.jpg''] \<rparr>)
          = Some (extract_media_urls https_lib photo_article)
        \<and> list_all (validate_url https_lib) (extract_media_urls https_lib photo_article)"
    by blast
  then show ?thesis by simp
qed

text \<open>
  C9 as stated fails on the live-API path: a tweet without URL entities gets
  \<open>media_urls = None\<close>, not the empty list, and an entity whose expanded URL merely contains
  \<open>.jpg\<close> is passed on although it is no URL.
\<close>

theorem transform_tweet_media_urls_null:
  "media_urls (transform_tweet Map.empty Map.empty text_only_api_tweet) = None
   \<and> media_urls (transform_tweet Map.empty Map.empty photo_api_tweet) = Some [''not a url.jpg'']
   \<and> \<not> validate_url https_lib ''not a url.jpg''"
  by code_simp

subsection \<open>Duplicate suppression in the scheduler\<close>

lemma enqueue_loop_no_recent:
  "uid \<in> set (enqueue_loop env hour bs k rows) \<Longrightarrow>
   \<exists>j. \<not> has_recent_briefing bs uid (clock env j - DUPLICATE_BRIEFING_HOURS * 3600)"
proof (induction rows arbitrary: k)
  case Nil
  then show ?case by simp
next
  case (Cons r rows)
  show ?case
  proof (cases "utc_hour_for_user env (schedule_hour (row_settings r)) (timezone (row_settings r))
                  (clock env k) \<noteq> hour")
    case True
    with Cons.prems have "uid \<in> set (enqueue_loop env hour bs (k + 1) rows)" by simp
    then show ?thesis by (rule Cons.IH)
  next
    case False
    show ?thesis
    proof (cases "has_recent_briefing bs (row_user r) (clock env (k + 1) - DUPLICATE_BRIEFING_HOURS * 3600)")
      case True
      with False Cons.prems have "uid \<in> set (enqueue_loop env hour bs (k + 2) rows)"
        by (simp add: Let_def)
      then show ?thesis by (rule Cons.IH)
    next
      case norecent: False
      with False Cons.prems
      have "uid = row_user r \<or> uid \<in> set (enqueue_loop env hour bs (k + 2) rows)"
        by (auto simp: Let_def split: if_splits)
      then show ?thesis
      proof
        assume "uid = row_user r"
        with norecent show ?thesis by blast
      next
        assume "uid \<in> set (enqueue_loop env hour bs (k + 2) rows)"
        then show ?thesis by (rule Cons.IH)
      qed
    qed
  qed
qed

text \<open>
  C10. Every user the hourly scheduler enqueues had, at the clock reading of its check, no
  briefing created in the 20 hours before; and with the clock at \<open>t\<close> throughout, a user
  with a briefing created at or after \<open>t - 20 h\<close> is not enqueued, whatever its schedule hour.
\<close>

theorem enqueue_due_users_skips_recent:
  "(uid \<in> set (enqueue_due_users env rows bs)
      \<longrightarrow> (\<exists>j. \<not> has_recent_briefing bs uid (clock env j - 20 * 3600)))
   \<and> ((\<forall>j. clock env j = t) \<and> has_recent_briefing bs uid (t - 20 * 3600)
      \<longrightarrow> uid \<notin> set (enqueue_due_users env rows bs))"
proof (intro conjI impI)
  assume "uid \<in> set (enqueue_due_users env rows bs)"
  then show "\<exists>j. \<not> has_recent_briefing bs uid (clock env j - 20 * 3600)"
    using enqueue_loop_no_recent [of uid env _ bs 1 "filter is_subscribed rows"]
    by (simp add: enqueue_due_users_def Let_def DUPLICATE_BRIEFING_HOURS_def)
next
  assume h: "(\<forall>j. clock env j = t) \<and> has_recent_briefing bs uid (t - 20 * 3600)"
  show "uid \<notin> set (enqueue_due_users env rows bs)"
  proof
    assume "uid \<in> set (enqueue_due_users env rows bs)"
    then have "\<exists>j. \<not> has_recent_briefing bs uid (clock env j - DUPLICATE_BRIEFING_HOURS * 3600)"
      using enqueue_loop_no_recent [of uid env _ bs 1 "filter is_subscribed rows"]
      by (simp add: enqueue_due_users_def Let_def)
    with h show False by (simp add: DUPLICATE_BRIEFING_HOURS_def)
  qed
qed

lemma two_due_users_enqueued:
  "enqueue_due_users eight_oclock_env [due_user 1, due_user 2]
     [briefing_at 1 0, briefing_at 2 (- 100000)] = [2]"
  by code_simp

theorem enqueue_due_users_skips_recent_witness:
  "enqueue_due_users eight_oclock_env [due_user 1, due_user 2]
     [briefing_at 1 0, briefing_at 2 (- 100000)] = [2]
   \<and> 1 \<notin> set (enqueue_due_users eight_oclock_env [due_user 1, due_user 2]
                 [briefing_at 1 0, briefing_at 2 (- 100000)])
   \<and> (\<exists>j. \<not> has_recent_briefing [briefing_at 1 0, briefing_at 2 (- 100000)] 2
              (clock eight_oclock_env j - 20 * 3600))"
proof -
  let ?rows = "[due_user 1, due_user 2]"
  let ?bs = "[briefing_at 1 0, briefing_at 2 (- 100000)]"
  have frozen: "\<forall>j. clock eight_oclock_env j = 8 * 3600" by (simp add: eight_oclock_env_def)
  have recent: "has_recent_briefing ?bs 1 (8 * 3600 - 20 * 3600)"
    by (simp add: has_recent_briefing_def briefing_at_def)
  have a: "1 \<notin> set (enqueue_due_users eight_oclock_env ?rows ?bs)"
    using enqueue_due_users_skips_recent
            [where uid=1 and env=eight_oclock_env and rows="?rows" and bs="?bs" and t="8 * 3600"]
          frozen recent by blast
  have "2 \<in> set (enqueue_due_users eight_oclock_env ?rows ?bs)"
    by (simp add: two_due_users_enqueued)
  then have b: "\<exists>j. \<not> has_recent_briefing ?bs 2 (clock eight_oclock_env j - 20 * 3600)"
    using enqueue_due_users_skips_recent
            [where uid=2 and env=eight_oclock_env and rows="?rows" and bs="?bs"]
    by blast
  from a b two_due_users_enqueued show ?thesis by simp
qed

end
